theory Spec2Isabelle
  imports Complex_Main "HOL-Library.Word" "HOL-Library.Log_Nat"
begin

unbundle bit_operations_syntax

section \<open>The Vorbis parser of libavcodec/vorbis_parser.c\<close>

text \<open>
  The file determines the duration of each Vorbis packet from the identification and the
  setup header of the stream. C \<open>int\<close> is a 32-bit two's complement word, \<open>uint8_t\<close> an
  8-bit word. A buffer \<open>(buf, buf_size)\<close> is a list of bytes whose length is \<open>buf_size\<close>.
\<close>

subsection \<open>Data\<close>

text \<open>\<open>struct VorbisParseContext\<close>: \<open>blocksize\<close> has two entries, \<open>mode_blocksize\<close> 64.\<close>

record VorbisParseContext =
  extradata_parsed :: "32 word"
  valid_extradata :: "32 word"
  blocksize :: "32 word list"
  previous_blocksize :: "32 word"
  mode_blocksize :: "32 word list"
  mode_count :: "32 word"
  mode_mask :: "32 word"

text \<open>
  The parser context \<open>s1\<close>: only \<open>priv_data\<close> and \<open>duration\<close> are touched by this file.
  The codec context \<open>avctx\<close>: only \<open>extradata\<close> (a pointer, \<open>None\<close> when null) and
  \<open>extradata_size\<close> are read.
\<close>

record AVCodecParserContext =
  priv_data :: VorbisParseContext
  duration :: "32 word"

record AVCodecContext =
  extradata :: "8 word list option"
  extradata_size :: int

text \<open>
  Every failure of the source is an \<open>av_log\<close> error message followed by an error return
  or by \<open>goto end\<close>. One constructor per message:
  \<^item> \<open>HeaderTooShort\<close>: "Id header is too short", "Setup header is too short";
  \<^item> \<open>WrongPacketType\<close>: "Wrong packet type in Id header", "... in Setup header";
  \<^item> \<open>BadSignature\<close>: "Invalid packet signature in Id header", "... in Setup header";
  \<^item> \<open>MissingFramingBit\<close>: "Invalid framing bit in Id header";
  \<^item> \<open>OutOfMemory\<close>: "Out of memory", the only one returning \<open>AVERROR(ENOMEM)\<close>
    instead of \<open>AVERROR_INVALIDDATA\<close>;
  \<^item> \<open>InvalidSetupHeader\<close>: "Invalid Setup header" (no framing bit, or no mode table);
  \<^item> \<open>ExtradataCorrupt\<close>: "Extradata corrupt.";
  \<^item> \<open>InvalidPacket\<close>: "Invalid packet"; \<open>InvalidMode\<close>: "Invalid mode in packet".
\<close>

datatype error =
  HeaderTooShort | WrongPacketType | BadSignature | MissingFramingBit | OutOfMemory
  | InvalidSetupHeader | ExtradataCorrupt | InvalidPacket | InvalidMode

text \<open>The six bytes of the signature "vorbis" compared by \<open>memcmp\<close>.\<close>

definition vorbis_sig :: "8 word list" where
  "vorbis_sig = [0x76, 0x6F, 0x72, 0x62, 0x69, 0x73]"

subsection \<open>The bit reader\<close>

text \<open>
  Modelled from the spec: the bit reader of \<open>get_bits.h\<close> (\<open>GetBitContext\<close>,
  \<open>init_get_bits\<close>, \<open>get_bits\<close>, \<open>get_bits1\<close>, \<open>skip_bits\<close>, \<open>skip_bits_long\<close>,
  \<open>get_bits_left\<close>, \<open>get_bits_count\<close>), which \<open>vorbis_parser.c\<close> includes and which is
  defined outside it. The spec describes it as a
  sequential reader of a fixed-size bit buffer, readable from an arbitrary bit offset, with
  an exact remaining-bit count and a cursor that can be copied. It leaves the order of the
  bits within a byte open: here they are taken most significant first, and a field of \<open>n\<close>
  bits is the unsigned number whose most significant bit is read first, as the library's
  default reader does. Only the evaluations of the example headers depend on that order. A
  bit beyond the buffer reads as 0; the parser never reads one.
\<close>

record GetBitContext =
  buffer :: "8 word list"
  index :: nat
  size_in_bits :: nat

definition init_get_bits :: "8 word list \<Rightarrow> nat \<Rightarrow> GetBitContext" where
  "init_get_bits buf bit_size = \<lparr>buffer = buf, index = 0, size_in_bits = bit_size\<rparr>"

definition get_bits_count :: "GetBitContext \<Rightarrow> nat" where
  "get_bits_count gb = index gb"

definition get_bits_left :: "GetBitContext \<Rightarrow> int" where
  "get_bits_left gb = int (size_in_bits gb) - int (index gb)"

definition bit_at :: "8 word list \<Rightarrow> nat \<Rightarrow> bool" where
  "bit_at buf i = (i div 8 < length buf \<and> bit (buf ! (i div 8)) (7 - i mod 8))"

fun show_bits :: "8 word list \<Rightarrow> nat \<Rightarrow> nat \<Rightarrow> nat" where
  "show_bits buf i 0 = 0"
| "show_bits buf i (Suc n) = 2 * show_bits buf i n + (if bit_at buf (i + n) then 1 else 0)"

definition get_bits :: "GetBitContext \<Rightarrow> nat \<Rightarrow> nat \<times> GetBitContext" where
  "get_bits gb n = (show_bits (buffer gb) (index gb) n, gb\<lparr>index := index gb + n\<rparr>)"

definition get_bits1 :: "GetBitContext \<Rightarrow> nat \<times> GetBitContext" where
  "get_bits1 gb = get_bits gb 1"

definition skip_bits :: "GetBitContext \<Rightarrow> nat \<Rightarrow> GetBitContext" where
  "skip_bits gb n = gb\<lparr>index := index gb + n\<rparr>"

definition skip_bits_long :: "GetBitContext \<Rightarrow> nat \<Rightarrow> GetBitContext" where
  "skip_bits_long gb n = gb\<lparr>index := index gb + n\<rparr>"

text \<open>
  Modelled from the spec: \<open>av_log2\<close>, which is defined outside \<open>vorbis_parser.c\<close>. It is
  the floor of the binary logarithm, with \<open>av_log2 0 = 0\<close>: the spec's
  \<open>floor(log2(mode_count - 1)) + 1\<close> is 1 when \<open>mode_count\<close> is 1.
\<close>

fun av_log2 :: "nat \<Rightarrow> nat" where
  "av_log2 v = (if v < 2 then 0 else Suc (av_log2 (v div 2)))"

declare av_log2.simps [simp del]

subsection \<open>\<open>parse_id_header\<close> (lines 42 to 72)\<close>

text \<open>
  Lines 68 and 69 assign both entries of \<open>int blocksize[2]\<close>: the array afterwards is the
  list of the two values. \<open>buf[28]\<close> is promoted to \<open>int\<close> before \<open>&\<close> and \<open>>>\<close>, so
  both exponents are below 16 and \<open>1 << exponent\<close> does not overflow.
\<close>

definition parse_id_header :: "VorbisParseContext \<Rightarrow> 8 word list \<Rightarrow> error + VorbisParseContext" where
  "parse_id_header s buf =
     (if length buf < 30 then Inl HeaderTooShort
      else if buf ! 0 \<noteq> 1 then Inl WrongPacketType
      else if take 6 (drop 1 buf) \<noteq> vorbis_sig then Inl BadSignature
      else if (buf ! 29) AND 1 = 0 then Inl MissingFramingBit
      else Inr (s\<lparr>blocksize :=
                  [push_bit (unat ((buf ! 28) AND 0xF)) 1,
                   push_bit (unat (drop_bit 4 (buf ! 28))) 1]\<rparr>))"

subsection \<open>\<open>parse_setup_header\<close> (lines 74 to 170)\<close>

text \<open>Lines 105 and 106: \<open>rev_buf[i] = buf[buf_size - 1 - i]\<close>.\<close>

definition reverse_bytes :: "8 word list \<Rightarrow> 8 word list" where
  "reverse_bytes buf = map (\<lambda>i. buf ! (length buf - 1 - i)) [0..<length buf]"

text \<open>
  Lines 109 to 115, the search for the framing bit: the result is \<open>got_framing_bit\<close>
  (0 when the loop ends without a set bit) and the reader as the loop leaves it.
\<close>

function scan_framing_bit :: "GetBitContext \<Rightarrow> nat \<times> GetBitContext" where
  "scan_framing_bit gb =
     (if get_bits_left gb > 97 then
        (if fst (get_bits1 gb) \<noteq> 0
         then (get_bits_count (snd (get_bits1 gb)), snd (get_bits1 gb))
         else scan_framing_bit (snd (get_bits1 gb)))
      else (0, gb))"
  by pat_completeness auto
termination
  by (relation "measure (\<lambda>gb. size_in_bits gb - index gb)")
     (auto simp: get_bits_left_def get_bits1_def get_bits_def)

declare scan_framing_bit.simps [simp del]

text \<open>
  Lines 128 to 142, the search for the mode table, on the reader \<open>gb\<close> with the locals
  \<open>mode_count\<close> (here \<open>count\<close>), \<open>got_mode_header\<close> and \<open>last_mode_count\<close>; the result is their value when
  the loop ends. The \<open>||\<close> of line 131 reads the second and third field only when the
  fields before pass. \<open>gb0\<close> is a copy of the reader: its read of 6 bits leaves \<open>gb\<close> alone.
\<close>

function scan_modes :: "GetBitContext \<Rightarrow> nat \<Rightarrow> bool \<Rightarrow> nat \<Rightarrow> nat \<times> bool \<times> nat" where
  "scan_modes gb count got_mode_header last_mode_count =
     (if get_bits_left gb \<ge> 97 then
        (if fst (get_bits gb 8) > 63 then (count, got_mode_header, last_mode_count)
         else if fst (get_bits (snd (get_bits gb 8)) 16) \<noteq> 0
         then (count, got_mode_header, last_mode_count)
         else if fst (get_bits (snd (get_bits (snd (get_bits gb 8)) 16)) 16) \<noteq> 0
         then (count, got_mode_header, last_mode_count)
         else
           (let gb' = skip_bits (snd (get_bits (snd (get_bits (snd (get_bits gb 8)) 16)) 16)) 1;
                count' = count + 1
            in if count' > 64 then (count', got_mode_header, last_mode_count)
               else if fst (get_bits gb' 6) + 1 = count'
               then scan_modes gb' count' True count'
               else scan_modes gb' count' got_mode_header last_mode_count))
      else (count, got_mode_header, last_mode_count))"
  by pat_completeness auto
termination
  by (relation "measure (\<lambda>(gb, _, _, _). size_in_bits gb - index gb)")
     (auto simp: get_bits_left_def get_bits_def skip_bits_def)

declare scan_modes.simps [simp del]

text \<open>
  Lines 162 to 165: \<open>read_mode_blocksizes gb n s\<close> runs the loop from \<open>i = n - 1\<close> down
  to 0.
\<close>

fun read_mode_blocksizes :: "GetBitContext \<Rightarrow> nat \<Rightarrow> VorbisParseContext \<Rightarrow> VorbisParseContext" where
  "read_mode_blocksizes gb 0 s = s"
| "read_mode_blocksizes gb (Suc i) s =
     read_mode_blocksizes (snd (get_bits1 (skip_bits_long gb 40))) i
       (s\<lparr>mode_blocksize := (mode_blocksize s)
            [i := blocksize s ! fst (get_bits1 (skip_bits_long gb 40))]\<rparr>)"

text \<open>
  \<open>av_malloc_ok\<close> tells whether \<open>av_malloc\<close> of line 101 returns a buffer.
  \<open>last_mode_count\<close> is not initialised in the source; it is read only when
  \<open>got_mode_header\<close> is set, which assigns it. The request for a sample of line 153 is a
  log message only.
\<close>

definition parse_setup_header ::
  "bool \<Rightarrow> VorbisParseContext \<Rightarrow> 8 word list \<Rightarrow> error + VorbisParseContext" where
  "parse_setup_header av_malloc_ok s buf =
     (if length buf < 7 then Inl HeaderTooShort
      else if buf ! 0 \<noteq> 5 then Inl WrongPacketType
      else if take 6 (drop 1 buf) \<noteq> vorbis_sig then Inl BadSignature
      else if \<not> av_malloc_ok then Inl OutOfMemory
      else
        (let rev_buf = reverse_bytes buf;
             gb = init_get_bits rev_buf (length buf * 8);
             got_framing_bit = fst (scan_framing_bit gb)
         in if got_framing_bit = 0 then Inl InvalidSetupHeader
            else
              (case scan_modes (snd (scan_framing_bit gb)) 0 False 0 of
                 (_, got_mode_header, last_mode_count) \<Rightarrow>
                   if \<not> got_mode_header then Inl InvalidSetupHeader
                   else
                     Inr (read_mode_blocksizes
                            (skip_bits_long (init_get_bits rev_buf (length buf * 8)) got_framing_bit)
                            last_mode_count
                            (s\<lparr>mode_count := of_nat last_mode_count,
                               mode_mask :=
                                 push_bit 1 (push_bit (av_log2 (last_mode_count - 1) + 1) 1 - 1)\<rparr>)))))"

subsection \<open>\<open>vorbis_parse\<close> (lines 172 to 223)\<close>

text \<open>
  What a call gives back: the parser context, the two output parameters, the return value,
  and the error message logged, if any.
\<close>

record parse_result =
  ctx :: AVCodecParserContext
  poutbuf :: "8 word list"
  poutbuf_size :: int
  retval :: int
  logged :: "error option"

text \<open>The label \<open>end\<close>, lines 217 to 222.\<close>

definition parse_end :: "8 word list \<Rightarrow> AVCodecParserContext \<times> error option \<Rightarrow> parse_result" where
  "parse_end buf r =
     \<lparr>ctx = fst r, poutbuf = buf, poutbuf_size = int (length buf),
      retval = int (length buf), logged = snd r\<rparr>"

text \<open>
  Lines 178 to 198. \<open>avpriv_split_xiph_headers\<close> is defined outside \<open>vorbis_parser.c\<close>: it
  is the parameter \<open>split\<close>, which gets the extradata, its size and the size of the first
  header, and gives the three headers, or \<open>None\<close> for a negative return value. An error
  in the result stands for \<open>goto end\<close>.
\<close>

type_synonym xiph_split =
  "8 word list \<Rightarrow> int \<Rightarrow> int \<Rightarrow> (8 word list \<times> 8 word list \<times> 8 word list) option"

definition parse_extradata ::
  "xiph_split \<Rightarrow> bool \<Rightarrow> AVCodecParserContext \<Rightarrow> AVCodecContext
     \<Rightarrow> AVCodecParserContext \<times> error option" where
  "parse_extradata split av_malloc_ok s1 avctx =
     (let s = priv_data s1 in
      if extradata_parsed s = 0 \<and> extradata avctx \<noteq> None \<and> extradata_size avctx \<noteq> 0 then
        (let s = s\<lparr>extradata_parsed := 1\<rparr> in
         case split (the (extradata avctx)) (extradata_size avctx) 30 of
           None \<Rightarrow> (s1\<lparr>priv_data := s\<rparr>, Some ExtradataCorrupt)
         | Some (h0, h1, h2) \<Rightarrow>
             (case parse_id_header s h0 of
                Inl e \<Rightarrow> (s1\<lparr>priv_data := s\<rparr>, Some e)
              | Inr s \<Rightarrow>
                  (case parse_setup_header av_malloc_ok s h2 of
                     Inl e \<Rightarrow> (s1\<lparr>priv_data := s\<rparr>, Some e)
                   | Inr s \<Rightarrow>
                       (s1\<lparr>priv_data := s\<lparr>valid_extradata := 1,
                                           previous_blocksize := mode_blocksize s ! 0\<rparr>\<rparr>,
                        None))))
      else (s1, None))"

text \<open>
  Lines 200 to 215. \<open>buf[0]\<close> is promoted to \<open>int\<close>; \<open>>>\<close> on \<open>int\<close> is the arithmetic
  shift; \<open>mode >= s->mode_count\<close> compares signed values.
\<close>

definition packet_mode :: "VorbisParseContext \<Rightarrow> 8 word list \<Rightarrow> 32 word" where
  "packet_mode s buf = signed_drop_bit 1 (ucast (buf ! 0) AND mode_mask s)"

definition packet_duration ::
  "AVCodecParserContext \<Rightarrow> 8 word list \<Rightarrow> AVCodecParserContext \<times> error option" where
  "packet_duration s1 buf =
     (let s = priv_data s1 in
      if valid_extradata s \<noteq> 0 \<and> int (length buf) > 0 then
        (if (ucast (buf ! 0) :: 32 word) AND 1 \<noteq> 0 then (s1, Some InvalidPacket)
         else
           (let mode = packet_mode s buf in
            if sint mode \<ge> sint (mode_count s) then (s1, Some InvalidMode)
            else
              (let current_blocksize = mode_blocksize s ! unat mode in
               (s1\<lparr>duration := signed_drop_bit 2 (previous_blocksize s + current_blocksize),
                   priv_data := s\<lparr>previous_blocksize := current_blocksize\<rparr>\<rparr>,
                None))))
      else (s1, None))"

definition vorbis_parse ::
  "xiph_split \<Rightarrow> bool \<Rightarrow> AVCodecParserContext \<Rightarrow> AVCodecContext \<Rightarrow> 8 word list
     \<Rightarrow> parse_result" where
  "vorbis_parse split av_malloc_ok s1 avctx buf =
     (case parse_extradata split av_malloc_ok s1 avctx of
        (s1', Some e) \<Rightarrow> parse_end buf (s1', Some e)
      | (s1', None) \<Rightarrow> parse_end buf (packet_duration s1' buf))"

subsection \<open>Parser states and sequences of calls\<close>

text \<open>
  Modelled from the spec: the allocation of the private data, which the library does
  before the first call, outside \<open>vorbis_parser.c\<close>. The spec: "created with all fields
  zeroed/false at stream start".
\<close>

definition new_context :: VorbisParseContext where
  "new_context =
     \<lparr>extradata_parsed = 0, valid_extradata = 0, blocksize = [0, 0], previous_blocksize = 0,
      mode_blocksize = replicate 64 0, mode_count = 0, mode_mask = 0\<rparr>"

definition new_parser :: "32 word \<Rightarrow> AVCodecParserContext" where
  "new_parser d = \<lparr>priv_data = new_context, duration = d\<rparr>"

text \<open>The inputs of one call of \<open>vorbis_parse\<close>, and the parser context after it.\<close>

record parse_call =
  call_split :: xiph_split
  call_malloc_ok :: bool
  call_avctx :: AVCodecContext
  call_buf :: "8 word list"

definition do_call :: "AVCodecParserContext \<Rightarrow> parse_call \<Rightarrow> AVCodecParserContext" where
  "do_call s1 c =
     ctx (vorbis_parse (call_split c) (call_malloc_ok c) s1 (call_avctx c) (call_buf c))"

text \<open>The contexts a sequence of calls goes through, the first one included.\<close>

fun parse_trace :: "AVCodecParserContext \<Rightarrow> parse_call list \<Rightarrow> AVCodecParserContext list" where
  "parse_trace s1 [] = [s1]"
| "parse_trace s1 (c # cs) = s1 # parse_trace (do_call s1 c) cs"

definition parse_calls :: "AVCodecParserContext \<Rightarrow> parse_call list \<Rightarrow> AVCodecParserContext" where
  "parse_calls s1 cs = foldl do_call s1 cs"

text \<open>How often a flag goes from false to true along a sequence.\<close>

fun rises :: "bool list \<Rightarrow> nat" where
  "rises (a # b # xs) = (if \<not> a \<and> b then 1 else 0) + rises (b # xs)"
| "rises xs = 0"

definition parsed_flag :: "AVCodecParserContext \<Rightarrow> bool" where
  "parsed_flag s1 = (extradata_parsed (priv_data s1) \<noteq> 0)"

definition valid_flag :: "AVCodecParserContext \<Rightarrow> bool" where
  "valid_flag s1 = (valid_extradata (priv_data s1) \<noteq> 0)"

definition has_extradata :: "parse_call \<Rightarrow> bool" where
  "has_extradata c = (extradata (call_avctx c) \<noteq> None \<and> extradata_size (call_avctx c) \<noteq> 0)"

text \<open>
  The error of the header step (lines 178 to 198) of a call made in the state \<open>s1\<close>, if it
  fails: the split of the extradata or one of the two header parsers returned an error.
\<close>

definition attempt_error :: "AVCodecParserContext \<Rightarrow> parse_call \<Rightarrow> error option" where
  "attempt_error s1 c = snd (parse_extradata (call_split c) (call_malloc_ok c) s1 (call_avctx c))"

subsection \<open>The mode search as the specification words it\<close>

text \<open>
  The specification's step 3 starts the search for the mode table "from the start of the
  reversed stream (not from the framing-bit position)". This second definition follows
  those words: it is \<open>parse_setup_header\<close> with \<open>scan_modes\<close> on a fresh reader.
\<close>

definition spec_parse_setup_header ::
  "bool \<Rightarrow> VorbisParseContext \<Rightarrow> 8 word list \<Rightarrow> error + VorbisParseContext" where
  "spec_parse_setup_header av_malloc_ok s buf =
     (if length buf < 7 then Inl HeaderTooShort
      else if buf ! 0 \<noteq> 5 then Inl WrongPacketType
      else if take 6 (drop 1 buf) \<noteq> vorbis_sig then Inl BadSignature
      else if \<not> av_malloc_ok then Inl OutOfMemory
      else
        (let rev_buf = reverse_bytes buf;
             gb = init_get_bits rev_buf (length buf * 8);
             got_framing_bit = fst (scan_framing_bit gb)
         in if got_framing_bit = 0 then Inl InvalidSetupHeader
            else
              (case scan_modes (init_get_bits rev_buf (length buf * 8)) 0 False 0 of
                 (_, got_mode_header, last_mode_count) \<Rightarrow>
                   if \<not> got_mode_header then Inl InvalidSetupHeader
                   else
                     Inr (read_mode_blocksizes
                            (skip_bits_long (init_get_bits rev_buf (length buf * 8)) got_framing_bit)
                            last_mode_count
                            (s\<lparr>mode_count := of_nat last_mode_count,
                               mode_mask :=
                                 push_bit 1 (push_bit (av_log2 (last_mode_count - 1) + 1) 1 - 1)\<rparr>)))))"

subsection \<open>The width of the mode index as the specification words it\<close>

text \<open>
  The specification's step 7: "let \<open>bits = floor(log2(mode_count - 1)) + 1\<close> (number of
  bits needed to index \<open>mode_count\<close> modes, minimum 1 when \<open>mode_count == 1\<close>)".
\<close>

definition spec_mode_bits :: "nat \<Rightarrow> nat" where
  "spec_mode_bits m = (if m = 1 then 1 else nat \<lfloor>log 2 (real (m - 1))\<rfloor> + 1)"

subsection \<open>Example headers\<close>

text \<open>
  An identification header with the exponents 6 and 9 (block sizes 64 and 512), and two
  setup headers. Read from its end, \<open>setup_two_modes\<close> has the framing bit at bit 7, a
  mode with the long window, a mode with the short window, and the mode count minus one;
  \<open>setup_one_mode\<close> has the framing bit at bit 1 and one mode with the short window.
\<close>

definition example_id_header :: "8 word list" where
  "example_id_header = [1, 0x76, 0x6F, 0x72, 0x62, 0x69, 0x73] @ replicate 21 0 @ [0x96, 1]"

definition setup_two_modes :: "8 word list" where
  "setup_two_modes =
     [5, 0x76, 0x6F, 0x72, 0x62, 0x69, 0x73, 1, 0, 0, 0, 0, 0x80, 0, 0, 0, 0, 0, 1]"

definition setup_one_mode :: "8 word list" where
  "setup_one_mode = [5, 0x76, 0x6F, 0x72, 0x62, 0x69, 0x73, 0, 0, 0, 0, 0, 0, 0x40]"

definition example_split :: "8 word list \<Rightarrow> xiph_split" where
  "example_split setup = (\<lambda>e n k. Some (example_id_header, [], setup))"

definition example_avctx :: AVCodecContext where
  "example_avctx = \<lparr>extradata = Some [0], extradata_size = 1\<rparr>"

definition no_extradata :: AVCodecContext where
  "no_extradata = \<lparr>extradata = None, extradata_size = 0\<rparr>"

text \<open>
  The state of the specification's end-to-end example: two modes with the block sizes 64
  and 512, the previous block size 64.
\<close>

definition example_context :: VorbisParseContext where
  "example_context =
     \<lparr>extradata_parsed = 1, valid_extradata = 1, blocksize = [64, 512],
      previous_blocksize = 64, mode_blocksize = [64, 512] @ replicate 62 0,
      mode_count = 2, mode_mask = 2\<rparr>"

text \<open>Calls with these headers, and two sequences of calls.\<close>

definition example_call :: "8 word list \<Rightarrow> bool \<Rightarrow> AVCodecContext \<Rightarrow> 8 word list \<Rightarrow> parse_call" where
  "example_call setup ok avctx buf =
     \<lparr>call_split = example_split setup, call_malloc_ok = ok, call_avctx = avctx, call_buf = buf\<rparr>"


definition calls_parsed_late :: "parse_call list" where
  "calls_parsed_late =
     [example_call setup_two_modes True no_extradata [2],
      example_call setup_two_modes True example_avctx [2],
      example_call setup_one_mode True example_avctx [0]]"

definition calls_failed_first :: "parse_call list" where
  "calls_failed_first =
     [example_call setup_two_modes False example_avctx [2],
      example_call setup_two_modes True example_avctx [2]]"

text \<open>The parser after a first call with the example headers and an empty packet.\<close>

definition parsed_example :: AVCodecParserContext where
  "parsed_example = parse_calls (new_parser 0) [example_call setup_two_modes True example_avctx []]"

subsection \<open>What holds of every state a new parser reaches\<close>

text \<open>
  The arrays keep their sizes; once \<open>valid_extradata\<close> is set, \<open>extradata_parsed\<close> is
  set, both block sizes are powers of two with an exponent below 16, the mode count is
  between 1 and 64, and the block size of every mode and the previous block size are one
  of the two block sizes.
\<close>

definition ctx_inv :: "VorbisParseContext \<Rightarrow> bool" where
  "ctx_inv s =
     (length (mode_blocksize s) = 64 \<and>
      (valid_extradata s \<noteq> 0 \<longrightarrow>
         extradata_parsed s \<noteq> 0 \<and> length (blocksize s) = 2 \<and>
         (\<forall>b\<in>set (blocksize s). \<exists>e<16. b = push_bit e 1) \<and>
         1 \<le> unat (mode_count s) \<and> unat (mode_count s) \<le> 64 \<and>
         (\<forall>i<unat (mode_count s). mode_blocksize s ! i \<in> set (blocksize s)) \<and>
         previous_blocksize s \<in> set (blocksize s)))"

section \<open>Properties\<close>

subsection \<open>Bytes and bits\<close>

lemma ucast_and_1_bit0: "((ucast (b :: 8 word) :: 32 word) AND 1 \<noteq> 0) = bit b 0"
proof -
  have "((ucast b :: 32 word) AND 1 \<noteq> 0) = bit (ucast b :: 32 word) 0"
    by (simp add: and_one_eq bit_0 flip: even_iff_mod_2_eq_zero)
  also have "\<dots> = bit b 0"
    by (simp add: bit_ucast_iff)
  finally show ?thesis .
qed

lemma and_1_bit0: "((b :: 8 word) AND 1 = 0) = (\<not> bit b 0)"
  by (simp add: and_one_eq bit_0 flip: even_iff_mod_2_eq_zero)

subsection \<open>The identification header\<close>

text \<open>
  C8: a buffer of fewer than 30 bytes makes \<open>parse_id_header\<close> fail with the
  too-short error, and a buffer of fewer than 7 bytes makes \<open>parse_setup_header\<close> fail
  with the too-short error, whatever the bytes, the state and the allocator are: no
  header field is read.
\<close>

theorem short_headers_rejected:
  "(length buf < 30 \<longrightarrow> parse_id_header s buf = Inl HeaderTooShort) \<and>
   (length buf < 7 \<longrightarrow> parse_setup_header av_malloc_ok s buf = Inl HeaderTooShort)"
  by (simp add: parse_id_header_def parse_setup_header_def)

theorem short_headers_rejected_witness:
  "length [1, 0x76, 0x6F :: 8 word] < 30 \<and> length [1, 0x76, 0x6F :: 8 word] < 7 \<and>
   parse_id_header new_context [1, 0x76, 0x6F] = Inl HeaderTooShort \<and>
   parse_setup_header True new_context [1, 0x76, 0x6F] = Inl HeaderTooShort"
  using short_headers_rejected [of "[1, 0x76, 0x6F]" new_context True] by simp

text \<open>
  C4: an identification header of at least 30 bytes with byte 0 equal to 1, the signature
  "vorbis" in bytes 1 to 6 and bit 0 of byte 29 set is accepted, and the block sizes are
  \<open>1 << (byte 28 & 0xF)\<close> and \<open>1 << (byte 28 >> 4)\<close>; no exponent is rejected.
\<close>

theorem id_header_blocksizes:
  assumes "30 \<le> length buf" and "buf ! 0 = 1" and "take 6 (drop 1 buf) = vorbis_sig"
    and "bit (buf ! 29) 0"
  shows "\<exists>s'. parse_id_header s buf = Inr s' \<and>
           blocksize s' ! 0 = push_bit (unat ((buf ! 28) AND 0xF)) 1 \<and>
           blocksize s' ! 1 = push_bit (unat (drop_bit 4 (buf ! 28))) 1 \<and>
           length (blocksize s') = 2 \<and> s' = s\<lparr>blocksize := blocksize s'\<rparr>"
  using assms by (simp add: parse_id_header_def and_1_bit0)

theorem id_header_blocksizes_witness:
  "30 \<le> length example_id_header \<and> example_id_header ! 0 = 1 \<and>
   take 6 (drop 1 example_id_header) = vorbis_sig \<and> bit (example_id_header ! 29) 0 \<and>
   (\<exists>s'. parse_id_header new_context example_id_header = Inr s' \<and>
      blocksize s' ! 0 = 64 \<and> blocksize s' ! 1 = 512)"
proof -
  have h: "30 \<le> length example_id_header" "example_id_header ! 0 = 1"
    "take 6 (drop 1 example_id_header) = vorbis_sig" "bit (example_id_header ! 29) 0"
    by (simp_all add: example_id_header_def vorbis_sig_def nth_append)
  have v: "example_id_header ! 28 = 0x96"
    by (simp add: example_id_header_def nth_append)
  from id_header_blocksizes [OF h, of new_context] v h show ?thesis
    by auto
qed

subsection \<open>The packet is passed through\<close>

text \<open>
  C7: on every path through \<open>vorbis_parse\<close> the output buffer is the input buffer, the
  output size and the return value are its size; the bytes are the same.
\<close>

theorem packet_passed_through:
  "poutbuf (vorbis_parse split av_malloc_ok s1 avctx buf) = buf \<and>
   poutbuf_size (vorbis_parse split av_malloc_ok s1 avctx buf) = int (length buf) \<and>
   retval (vorbis_parse split av_malloc_ok s1 avctx buf) = int (length buf)"
  by (simp add: vorbis_parse_def parse_end_def split: prod.split option.split)

subsection \<open>Setup headers of at most 12 bytes\<close>

lemma scan_framing_bit_short:
  "get_bits_left gb \<le> 97 \<Longrightarrow> scan_framing_bit gb = (0, gb)"
  by (simp add: scan_framing_bit.simps)

text \<open>
  C9, amended: a setup header of 7 to 12 bytes that passes the packet-type and the
  signature check never parses. It holds at most 96 bits and the search for the framing
  bit reads a bit only while more than 97 remain, so no framing bit is found: the error is
  the invalid-setup-header error when the scratch buffer is allocated, and the
  out-of-memory error of line 103 when \<open>av_malloc\<close> fails.
\<close>

theorem short_setup_header_fails:
  assumes "7 \<le> length buf" and "length buf \<le> 12" and "buf ! 0 = 5"
    and "take 6 (drop 1 buf) = vorbis_sig"
  shows "fst (scan_framing_bit (init_get_bits (reverse_bytes buf) (length buf * 8))) = 0 \<and>
         parse_setup_header av_malloc_ok s buf =
           Inl (if av_malloc_ok then InvalidSetupHeader else OutOfMemory)"
proof -
  have "get_bits_left (init_get_bits (reverse_bytes buf) (length buf * 8)) \<le> 97"
    using assms(2) by (simp add: get_bits_left_def init_get_bits_def)
  then have "fst (scan_framing_bit (init_get_bits (reverse_bytes buf) (length buf * 8))) = 0"
    by (simp add: scan_framing_bit_short)
  then show ?thesis
    using assms by (simp add: parse_setup_header_def)
qed

theorem short_setup_header_fails_witness:
  "7 \<le> length [5, 0x76, 0x6F, 0x72, 0x62, 0x69, 0x73, 0xFF, 0xFF, 0xFF, 0xFF, 0xFF :: 8 word] \<and>
   length [5, 0x76, 0x6F, 0x72, 0x62, 0x69, 0x73, 0xFF, 0xFF, 0xFF, 0xFF, 0xFF :: 8 word] \<le> 12 \<and>
   parse_setup_header True new_context
     [5, 0x76, 0x6F, 0x72, 0x62, 0x69, 0x73, 0xFF, 0xFF, 0xFF, 0xFF, 0xFF] = Inl InvalidSetupHeader"
  using short_setup_header_fails
    [of "[5, 0x76, 0x6F, 0x72, 0x62, 0x69, 0x73, 0xFF, 0xFF, 0xFF, 0xFF, 0xFF]" True new_context]
  by (simp add: vorbis_sig_def)

text \<open>
  C9 as stated fails: with a failing allocation the 7-byte header made of the packet type
  and the signature is rejected with the out-of-memory error, not with the
  invalid-setup-header error.
\<close>

theorem short_setup_header_counterexample:
  "7 \<le> length [5, 0x76, 0x6F, 0x72, 0x62, 0x69, 0x73 :: 8 word] \<and>
   length [5, 0x76, 0x6F, 0x72, 0x62, 0x69, 0x73 :: 8 word] \<le> 12 \<and>
   [5, 0x76, 0x6F, 0x72, 0x62, 0x69, 0x73 :: 8 word] ! 0 = 5 \<and>
   take 6 (drop 1 [5, 0x76, 0x6F, 0x72, 0x62, 0x69, 0x73 :: 8 word]) = vorbis_sig \<and>
   parse_setup_header False new_context [5, 0x76, 0x6F, 0x72, 0x62, 0x69, 0x73]
     \<noteq> Inl InvalidSetupHeader"
  by (simp add: parse_setup_header_def vorbis_sig_def)

subsection \<open>Packets that fail the per-packet checks\<close>

lemma parse_extradata_skipped:
  "extradata_parsed (priv_data s1) \<noteq> 0 \<Longrightarrow> parse_extradata split ok s1 avctx = (s1, None)"
  by (simp add: parse_extradata_def)

lemma parse_extradata_duration:
  "duration (fst (parse_extradata split ok s1 avctx)) = duration s1"
  by (simp add: parse_extradata_def Let_def split: option.split prod.split sum.split)

text \<open>
  C3: when the duration calculation of lines 200 to 215 is entered (the extradata step did
  not fail, \<open>valid_extradata\<close> is set, the packet is not empty) and the packet fails a
  check, because bit 0 of its first byte is set (invalid packet) or because its mode index
  is not below \<open>mode_count\<close> (invalid mode), then no field of the parser state is changed by
  the calculation: the state after the call is the state the calculation was entered with,
  which is the state before the call whenever the extradata had been parsed before.
\<close>

theorem packet_failure_keeps_state:
  assumes "parse_extradata split ok s1 avctx = (s1m, None)"
    and "valid_extradata (priv_data s1m) \<noteq> 0" and "buf \<noteq> []"
    and "bit (buf ! 0) 0 \<or> sint (mode_count (priv_data s1m)) \<le> sint (packet_mode (priv_data s1m) buf)"
  shows "priv_data (ctx (vorbis_parse split ok s1 avctx buf)) = priv_data s1m \<and>
         logged (vorbis_parse split ok s1 avctx buf)
           = Some (if bit (buf ! 0) 0 then InvalidPacket else InvalidMode) \<and>
         (extradata_parsed (priv_data s1) \<noteq> 0 \<longrightarrow>
            priv_data (ctx (vorbis_parse split ok s1 avctx buf)) = priv_data s1)"
proof -
  have r: "vorbis_parse split ok s1 avctx buf = parse_end buf (packet_duration s1m buf)"
    using assms(1) by (simp add: vorbis_parse_def)
  have p: "packet_duration s1m buf =
             (s1m, Some (if bit (buf ! 0) 0 then InvalidPacket else InvalidMode))"
    using assms(2-4) by (auto simp: packet_duration_def Let_def ucast_and_1_bit0)
  have e: "priv_data (ctx (vorbis_parse split ok s1 avctx buf)) = priv_data s1m"
    by (simp add: r p parse_end_def)
  have l: "logged (vorbis_parse split ok s1 avctx buf)
             = Some (if bit (buf ! 0) 0 then InvalidPacket else InvalidMode)"
    by (simp add: r p parse_end_def)
  have "extradata_parsed (priv_data s1) \<noteq> 0 \<Longrightarrow> s1m = s1"
    using assms(1) by (simp add: parse_extradata_skipped)
  with e l show ?thesis
    by auto
qed

text \<open>
  C10: when a packet fails one of the two per-packet checks, the \<open>duration\<close> field of the
  parser context is not written: after the call it holds the value it had before the call.
\<close>

theorem packet_failure_keeps_duration:
  assumes "parse_extradata split ok s1 avctx = (s1m, None)"
    and "valid_extradata (priv_data s1m) \<noteq> 0" and "buf \<noteq> []"
    and "bit (buf ! 0) 0 \<or> sint (mode_count (priv_data s1m)) \<le> sint (packet_mode (priv_data s1m) buf)"
  shows "duration (ctx (vorbis_parse split ok s1 avctx buf)) = duration s1"
proof -
  have r: "vorbis_parse split ok s1 avctx buf = parse_end buf (packet_duration s1m buf)"
    using assms(1) by (simp add: vorbis_parse_def)
  have p: "fst (packet_duration s1m buf) = s1m"
    using assms(2-4) by (auto simp: packet_duration_def Let_def ucast_and_1_bit0)
  have "duration s1m = duration s1"
    using parse_extradata_duration [of split ok s1 avctx] assms(1) by simp
  then show ?thesis
    by (simp add: r p parse_end_def)
qed

theorem packet_failure_keeps_state_witness:
  "parse_extradata (example_split setup_two_modes) True
     \<lparr>priv_data = example_context, duration = 7\<rparr> no_extradata
     = (\<lparr>priv_data = example_context, duration = 7\<rparr>, None) \<and>
   valid_extradata example_context \<noteq> 0 \<and> [3 :: 8 word] \<noteq> [] \<and> bit ([3 :: 8 word] ! 0) 0 \<and>
   priv_data (ctx (vorbis_parse (example_split setup_two_modes) True
     \<lparr>priv_data = example_context, duration = 7\<rparr> no_extradata [3])) = example_context \<and>
   logged (vorbis_parse (example_split setup_two_modes) True
     \<lparr>priv_data = example_context, duration = 7\<rparr> no_extradata [3]) = Some InvalidPacket"
proof -
  have a: "parse_extradata (example_split setup_two_modes) True
     \<lparr>priv_data = example_context, duration = 7\<rparr> no_extradata
     = (\<lparr>priv_data = example_context, duration = 7\<rparr>, None)"
    by (simp add: parse_extradata_def example_context_def)
  have b: "valid_extradata (priv_data \<lparr>priv_data = example_context, duration = 7\<rparr>) \<noteq> 0"
    by (simp add: example_context_def)
  have c: "[3 :: 8 word] \<noteq> []" by simp
  have d: "bit ([3 :: 8 word] ! 0) 0" by simp
  from packet_failure_keeps_state [OF a b c disjI1 [OF d]] a b d show ?thesis
    by simp
qed

lemma one_mode_parsed:
  "snd (parse_extradata (example_split setup_one_mode) True (new_parser 7) example_avctx) = None"
  "valid_extradata (priv_data (fst (parse_extradata (example_split setup_one_mode) True (new_parser 7) example_avctx))) = 1"
  "mode_count (priv_data (fst (parse_extradata (example_split setup_one_mode) True (new_parser 7) example_avctx))) = 1"
  "mode_mask (priv_data (fst (parse_extradata (example_split setup_one_mode) True (new_parser 7) example_avctx))) = 2"
  by code_simp+

theorem packet_failure_keeps_duration_witness:
  "snd (parse_extradata (example_split setup_one_mode) True (new_parser 7) example_avctx) = None \<and>
   valid_extradata (priv_data (fst (parse_extradata (example_split setup_one_mode) True
      (new_parser 7) example_avctx))) \<noteq> 0 \<and>
   \<not> bit ([2 :: 8 word] ! 0) 0 \<and>
   packet_mode (priv_data (fst (parse_extradata (example_split setup_one_mode) True
      (new_parser 7) example_avctx))) [2] = 1 \<and>
   mode_count (priv_data (fst (parse_extradata (example_split setup_one_mode) True
      (new_parser 7) example_avctx))) = 1 \<and>
   duration (ctx (vorbis_parse (example_split setup_one_mode) True (new_parser 7)
      example_avctx [2])) = 7"
proof -
  let ?p = "parse_extradata (example_split setup_one_mode) True (new_parser 7) example_avctx"
  have a: "?p = (fst ?p, None)"
    using one_mode_parsed(1) by (simp add: prod_eq_iff)
  have b: "valid_extradata (priv_data (fst ?p)) \<noteq> 0"
    by (simp add: one_mode_parsed(2))
  have m: "packet_mode (priv_data (fst ?p)) [2] = 1"
    by (simp add: packet_mode_def one_mode_parsed(4))
  have c: "sint (mode_count (priv_data (fst ?p))) \<le> sint (packet_mode (priv_data (fst ?p)) [2])"
    by (simp add: m one_mode_parsed(3))
  have d: "[2 :: 8 word] \<noteq> []" by simp
  have e: "duration (new_parser 7) = 7"
    by (simp add: new_parser_def)
  from packet_failure_keeps_duration [OF a b d disjI2 [OF c]]
  show ?thesis
    by (simp add: one_mode_parsed m e)
qed

subsection \<open>The mode mask\<close>

lemma av_log2_floorlog: "av_log2 v = floorlog 2 v - 1"
proof (induction v rule: av_log2.induct)
  case (1 v)
  show ?case
  proof (cases "v < 2")
    case True
    then have "v = 0 \<or> v = 1" by auto
    then show ?thesis
      by (auto simp: av_log2.simps [of v] compute_floorlog [of 2 0] compute_floorlog [of 2 "Suc 0"])
  next
    case False
    then have "0 < v div 2" by simp
    then have "0 < floorlog 2 (v div 2)"
      by (simp add: floorlog_def)
    with False 1 show ?thesis
      by (simp add: av_log2.simps [of v] compute_floorlog [of 2 v])
  qed
qed

lemma av_log2_log: "0 < v \<Longrightarrow> av_log2 v = nat \<lfloor>log 2 (real v)\<rfloor>"
  by (simp add: av_log2_floorlog floorlog_def)

lemma av_log2_bound: "v < 2 ^ k \<Longrightarrow> av_log2 v < max k 1"
proof (induction v arbitrary: k rule: av_log2.induct)
  case (1 v)
  show ?case
  proof (cases "v < 2")
    case True
    then show ?thesis by (simp add: av_log2.simps [of v])
  next
    case False
    with 1(2) obtain j where k: "k = Suc j"
      by (cases k) auto
    with 1(2) have "v div 2 < 2 ^ j" by auto
    with 1(1) False have "av_log2 (v div 2) < max j 1" by simp
    moreover have "j \<noteq> 0" using False 1(2) k by (cases j) auto
    ultimately show ?thesis using False k
      by (simp add: av_log2.simps [of v])
  qed
qed

lemma scan_modes_last:
  "scan_modes gb c g l = (c', g', l') \<Longrightarrow> c \<le> 64 \<Longrightarrow> (g \<longrightarrow> 1 \<le> l \<and> l \<le> 64)
     \<Longrightarrow> g' \<longrightarrow> 1 \<le> l' \<and> l' \<le> 64"
proof (induction gb c g l rule: scan_modes.induct)
  case (1 gb c g l)
  show ?case
    using "1.prems" "1.IH"
    by (subst (asm) scan_modes.simps) (auto simp: Let_def split: if_splits)
qed

lemma read_mode_blocksizes_fields:
  "mode_count (read_mode_blocksizes gb n s) = mode_count s"
  "mode_mask (read_mode_blocksizes gb n s) = mode_mask s"
  "blocksize (read_mode_blocksizes gb n s) = blocksize s"
  "extradata_parsed (read_mode_blocksizes gb n s) = extradata_parsed s"
  "valid_extradata (read_mode_blocksizes gb n s) = valid_extradata s"
  "previous_blocksize (read_mode_blocksizes gb n s) = previous_blocksize s"
  "length (mode_blocksize (read_mode_blocksizes gb n s)) = length (mode_blocksize s)"
  by (induction n arbitrary: gb s) simp_all

lemma bit_mode_mask:
  assumes "bits \<le> 6"
  shows "bit (push_bit 1 (push_bit bits 1 - 1) :: 32 word) n \<longleftrightarrow> 1 \<le> n \<and> n \<le> bits"
proof -
  have e: "(push_bit bits 1 - 1 :: 32 word) = mask bits"
    by (simp add: mask_eq_exp_minus_1 push_bit_eq_mult)
  have "bit (push_bit 1 (mask bits :: 32 word)) n \<longleftrightarrow> 1 \<le> n \<and> n < 32 \<and> n - 1 < bits"
    unfolding bit_push_bit_iff bit_mask_iff possible_bit_word by auto
  with assms show ?thesis
    unfolding e by auto
qed

text \<open>
  C5: after every successful parse of a setup header the mode count \<open>m\<close> is between 1 and
  64 and the mode mask is \<open>((1 << bits) - 1) << 1\<close> with
  \<open>bits = floor(log2(m - 1)) + 1\<close>, and \<open>bits = 1\<close> for \<open>m = 1\<close>: the bits of the mask are
  the bits 1 to \<open>bits\<close>, and bit 0 is not in it.
\<close>

theorem mode_mask_formula:
  assumes "parse_setup_header av_malloc_ok s buf = Inr s'"
  shows "1 \<le> unat (mode_count s') \<and> unat (mode_count s') \<le> 64 \<and>
         mode_mask s' = push_bit 1 (push_bit (spec_mode_bits (unat (mode_count s'))) 1 - 1) \<and>
         (\<forall>n. bit (mode_mask s') n \<longleftrightarrow> 1 \<le> n \<and> n \<le> spec_mode_bits (unat (mode_count s')))"
proof -
  let ?gb = "init_get_bits (reverse_bytes buf) (length buf * 8)"
  obtain c g l where sm: "scan_modes (snd (scan_framing_bit ?gb)) 0 False 0 = (c, g, l)"
    by (cases "scan_modes (snd (scan_framing_bit ?gb)) 0 False 0") auto
  from assms have g: "g"
    and s': "s' = read_mode_blocksizes (skip_bits_long ?gb (fst (scan_framing_bit ?gb))) l
               (s\<lparr>mode_count := of_nat l,
                  mode_mask := push_bit 1 (push_bit (av_log2 (l - 1) + 1) 1 - 1)\<rparr>)"
    by (auto simp: parse_setup_header_def Let_def sm split: if_splits)
  from scan_modes_last [OF sm] g have l: "1 \<le> l" "l \<le> 64"
    by auto
  let ?bits = "av_log2 (l - 1) + 1"
  have "mode_count s' = of_nat l"
    by (simp add: s' read_mode_blocksizes_fields)
  with l have mc: "unat (mode_count s') = l"
    by (simp add: unat_of_nat)
  have mm: "mode_mask s' = push_bit 1 (push_bit ?bits 1 - 1)"
    by (simp add: s' read_mode_blocksizes_fields)
  have "l - 1 < 2 ^ 6" using l by simp
  then have "av_log2 (l - 1) < max 6 1" by (rule av_log2_bound)
  then have b6: "?bits \<le> 6" by simp
  have bl: "?bits = spec_mode_bits l"
  proof (cases "l = 1")
    case True
    then show ?thesis by (simp add: spec_mode_bits_def av_log2.simps [of 0])
  next
    case False
    with l have "0 < l - 1" by simp
    then show ?thesis using False by (simp add: spec_mode_bits_def av_log2_log)
  qed
  have bm: "\<forall>n. bit (mode_mask s') n \<longleftrightarrow> 1 \<le> n \<and> n \<le> spec_mode_bits l"
    unfolding mm bl [symmetric] using bit_mode_mask [OF b6] by blast
  have mm': "mode_mask s' = push_bit 1 (push_bit (spec_mode_bits l) 1 - 1)"
    unfolding mm bl ..
  from l mm' bm show ?thesis
    unfolding mc by blast
qed

lemma two_modes_parsed:
  "\<not> isl (parse_setup_header True new_context setup_two_modes)"
  "mode_count (projr (parse_setup_header True new_context setup_two_modes)) = 2"
  by code_simp+

theorem mode_mask_formula_witness:
  "\<exists>s'. parse_setup_header True new_context setup_two_modes = Inr s' \<and>
     unat (mode_count s') = 2 \<and> spec_mode_bits 2 = 1 \<and> mode_mask s' = 2 \<and>
     (\<forall>n. bit (mode_mask s') n \<longleftrightarrow> n = 1)"
proof -
  obtain s' where p: "parse_setup_header True new_context setup_two_modes = Inr s'"
    using two_modes_parsed(1) by (cases "parse_setup_header True new_context setup_two_modes") auto
  have m: "unat (mode_count s') = 2"
    using two_modes_parsed(2) by (simp add: p)
  have b: "spec_mode_bits 2 = 1"
    by (simp add: spec_mode_bits_def)
  have r: "\<And>n::nat. (1 \<le> n \<and> n \<le> 1) = (n = 1)"
    by auto
  from mode_mask_formula [OF p]
  have "mode_mask s' = push_bit 1 (push_bit 1 1 - 1)"
    and "\<forall>n. bit (mode_mask s') n \<longleftrightarrow> n = 1"
    unfolding m b r by blast+
  then have "mode_mask s' = 2" and "\<forall>n. bit (mode_mask s') n \<longleftrightarrow> n = 1"
    by simp_all
  with p m b show ?thesis
    by blast
qed

subsection \<open>Where the search for the mode table starts\<close>

lemma get_bits1_bit:
  "fst (get_bits1 gb) = (if bit_at (buffer gb) (index gb) then 1 else 0)"
  "snd (get_bits1 gb) = gb\<lparr>index := Suc (index gb)\<rparr>"
  by (simp_all add: get_bits1_def get_bits_def)

lemma scan_framing_bit_found:
  "scan_framing_bit gb = (fb, gb') \<Longrightarrow> fb \<noteq> 0 \<Longrightarrow>
     gb' = gb\<lparr>index := fb\<rparr> \<and> index gb < fb \<and> bit_at (buffer gb) (fb - 1) \<and>
     (\<forall>i. index gb \<le> i \<and> i < fb - 1 \<longrightarrow> \<not> bit_at (buffer gb) i) \<and>
     97 \<le> int (size_in_bits gb) - int fb"
proof (induction gb rule: scan_framing_bit.induct)
  case (1 gb)
  from "1.prems" have left: "97 < get_bits_left gb"
    by (subst (asm) scan_framing_bit.simps) (auto split: if_splits)
  show ?case
  proof (cases "bit_at (buffer gb) (index gb)")
    case True
    with left "1.prems" have "fb = Suc (index gb)" "gb' = gb\<lparr>index := Suc (index gb)\<rparr>"
      by (subst (asm) scan_framing_bit.simps, simp add: get_bits1_bit get_bits_count_def)+
    with True left show ?thesis
      by (auto simp: get_bits_left_def)
  next
    case False
    with left "1.prems" have r: "scan_framing_bit (gb\<lparr>index := Suc (index gb)\<rparr>) = (fb, gb')"
      by (subst (asm) scan_framing_bit.simps) (simp add: get_bits1_bit)
    from "1.IH" [OF left] False r "1.prems"(2)
    have ih: "gb' = gb\<lparr>index := fb\<rparr>" "Suc (index gb) < fb" "bit_at (buffer gb) (fb - 1)"
      "\<forall>i. Suc (index gb) \<le> i \<and> i < fb - 1 \<longrightarrow> \<not> bit_at (buffer gb) i"
      "97 \<le> int (size_in_bits gb) - int fb"
      by (simp_all add: get_bits1_bit)
    have "\<forall>i. index gb \<le> i \<and> i < fb - 1 \<longrightarrow> \<not> bit_at (buffer gb) i"
    proof (intro allI impI)
      fix i assume i: "index gb \<le> i \<and> i < fb - 1"
      show "\<not> bit_at (buffer gb) i"
      proof (cases "i = index gb")
        case True
        with False show ?thesis by simp
      next
        case False
        with i ih(4) show ?thesis by (simp add: Suc_le_eq)
      qed
    qed
    with ih show ?thesis
      by simp
  qed
qed

lemma scan_modes_stop:
  "get_bits_left gb < 97 \<Longrightarrow> scan_modes gb c g l = (c, g, l)"
  by (simp add: scan_modes.simps)

lemma scan_modes_at_97:
  assumes "get_bits_left gb = 97" and "fst (get_bits gb 8) \<le> 63"
    and "fst (get_bits (snd (get_bits gb 8)) 16) = 0"
    and "fst (get_bits (snd (get_bits (snd (get_bits gb 8)) 16)) 16) = 0"
  shows "fst (scan_modes gb c g l) = c + 1"
proof -
  let ?gb' = "skip_bits (snd (get_bits (snd (get_bits (snd (get_bits gb 8)) 16)) 16)) 1"
  have "get_bits_left ?gb' < 97"
    using assms(1) by (simp add: get_bits_left_def get_bits_def skip_bits_def)
  then have "\<And>c g l. scan_modes ?gb' c g l = (c, g, l)"
    by (rule scan_modes_stop)
  with assms show ?thesis
    by (subst scan_modes.simps) (simp add: Let_def)
qed

lemma reverse_bytes_rev: "reverse_bytes buf = rev buf"
  by (rule nth_equalityI) (simp_all add: reverse_bytes_def rev_nth)

text \<open>
  C1, amended: when the search for the framing bit succeeds with \<open>got_framing_bit = fb\<close>,
  the framing bit is bit \<open>fb - 1\<close> of the reversed stream, the first set bit, and the search
  for the mode table goes on with the same reader, which stands at bit \<open>fb\<close>, right after
  the framing bit: the header parses exactly when the loop of lines 130 to 142 run from
  there finds a mode table, and then with that loop's last mode count. The loop runs while
  at least 97 bits remain: with fewer it ends at once, and with exactly 97 it still reads
  a mode.
\<close>

theorem mode_search_starts_after_framing_bit:
  assumes "7 \<le> length buf" and "buf ! 0 = 5" and "take 6 (drop 1 buf) = vorbis_sig"
    and "scan_framing_bit (init_get_bits (reverse_bytes buf) (length buf * 8)) = (fb, gb)"
    and "fb \<noteq> 0"
  shows "gb = skip_bits_long (init_get_bits (reverse_bytes buf) (length buf * 8)) fb \<and>
         get_bits_count gb = fb \<and> 1 \<le> fb \<and>
         bit_at (reverse_bytes buf) (fb - 1) \<and> (\<forall>i<fb - 1. \<not> bit_at (reverse_bytes buf) i) \<and>
         (case scan_modes (skip_bits_long (init_get_bits (reverse_bytes buf) (length buf * 8)) fb)
                 0 False 0 of
            (_, got_mode_header, last_mode_count) \<Rightarrow>
              if got_mode_header
              then \<exists>s'. parse_setup_header True s buf = Inr s' \<and>
                         mode_count s' = of_nat last_mode_count
              else parse_setup_header True s buf = Inl InvalidSetupHeader) \<and>
         (\<forall>g c got l. get_bits_left g < 97 \<longrightarrow> scan_modes g c got l = (c, got, l)) \<and>
         (\<forall>g c got l. get_bits_left g = 97 \<and> fst (get_bits g 8) \<le> 63 \<and>
             fst (get_bits (snd (get_bits g 8)) 16) = 0 \<and>
             fst (get_bits (snd (get_bits (snd (get_bits g 8)) 16)) 16) = 0 \<longrightarrow>
             fst (scan_modes g c got l) = c + 1)"
proof -
  let ?gb0 = "init_get_bits (reverse_bytes buf) (length buf * 8)"
  from scan_framing_bit_found [OF assms(4,5)]
  have f: "gb = ?gb0\<lparr>index := fb\<rparr>" "0 < fb" "bit_at (reverse_bytes buf) (fb - 1)"
    "\<forall>i<fb - 1. \<not> bit_at (reverse_bytes buf) i"
    by (simp_all add: init_get_bits_def)
  have g: "gb = skip_bits_long ?gb0 fb"
    by (simp add: f(1) skip_bits_long_def init_get_bits_def)
  have c: "get_bits_count gb = fb"
    by (simp add: f(1) get_bits_count_def)
  have p: "(case scan_modes (skip_bits_long ?gb0 fb) 0 False 0 of
            (_, got_mode_header, last_mode_count) \<Rightarrow>
              if got_mode_header
              then \<exists>s'. parse_setup_header True s buf = Inr s' \<and>
                         mode_count s' = of_nat last_mode_count
              else parse_setup_header True s buf = Inl InvalidSetupHeader)"
    using assms(1-3,5)
    by (simp add: parse_setup_header_def assms(4) g [symmetric] read_mode_blocksizes_fields
        split: prod.split)
  from g c f(2-4) p show ?thesis
    by (simp add: scan_modes_stop scan_modes_at_97)
qed

lemma one_mode_framing:
  "scan_framing_bit (init_get_bits (reverse_bytes setup_one_mode) (length setup_one_mode * 8))
     = (2, \<lparr>buffer = reverse_bytes setup_one_mode, index = 2, size_in_bits = 112\<rparr>)"
  by code_simp

lemma one_mode_scan:
  "scan_modes (skip_bits_long (init_get_bits (reverse_bytes setup_one_mode)
     (length setup_one_mode * 8)) 2) 0 False 0 = (1, True, 1)"
  by code_simp

theorem mode_search_starts_after_framing_bit_witness:
  "7 \<le> length setup_one_mode \<and> setup_one_mode ! 0 = 5 \<and>
   take 6 (drop 1 setup_one_mode) = vorbis_sig \<and>
   fst (scan_framing_bit (init_get_bits (reverse_bytes setup_one_mode)
          (length setup_one_mode * 8))) = 2 \<and>
   snd (scan_framing_bit (init_get_bits (reverse_bytes setup_one_mode)
          (length setup_one_mode * 8)))
     = skip_bits_long (init_get_bits (reverse_bytes setup_one_mode)
          (length setup_one_mode * 8)) 2 \<and>
   (\<exists>s'. parse_setup_header True new_context setup_one_mode = Inr s' \<and> mode_count s' = 1)"
proof -
  have h: "7 \<le> length setup_one_mode" "setup_one_mode ! 0 = 5"
    "take 6 (drop 1 setup_one_mode) = vorbis_sig"
    by (simp_all add: setup_one_mode_def vorbis_sig_def)
  have n: "(2 :: nat) \<noteq> 0" by simp
  from mode_search_starts_after_framing_bit [OF h one_mode_framing n, of new_context]
  show ?thesis
    using h by (simp add: one_mode_framing one_mode_scan get_bits_count_def)
qed

text \<open>
  C1 as stated fails: in \<open>setup_one_mode\<close> the framing bit is found and the reader enters
  the loop at bit 2, not at bit 0; the header parses, while the search started at the start
  of the reversed stream reads the 8-bit field 0x40, above 63, and finds no mode.
\<close>

theorem mode_search_from_start_counterexample:
  "fst (scan_framing_bit (init_get_bits (reverse_bytes setup_one_mode)
          (length setup_one_mode * 8))) \<noteq> 0 \<and>
   get_bits_count (snd (scan_framing_bit (init_get_bits (reverse_bytes setup_one_mode)
          (length setup_one_mode * 8)))) = 2 \<and>
   \<not> isl (parse_setup_header True new_context setup_one_mode) \<and>
   spec_parse_setup_header True new_context setup_one_mode = Inl InvalidSetupHeader"
  by code_simp

subsection \<open>The two flags along a sequence of calls\<close>

lemma packet_duration_flags:
  "extradata_parsed (priv_data (fst (packet_duration s1 buf))) = extradata_parsed (priv_data s1)"
  "valid_extradata (priv_data (fst (packet_duration s1 buf))) = valid_extradata (priv_data s1)"
  "blocksize (priv_data (fst (packet_duration s1 buf))) = blocksize (priv_data s1)"
  "mode_blocksize (priv_data (fst (packet_duration s1 buf))) = mode_blocksize (priv_data s1)"
  "mode_count (priv_data (fst (packet_duration s1 buf))) = mode_count (priv_data s1)"
  "mode_mask (priv_data (fst (packet_duration s1 buf))) = mode_mask (priv_data s1)"
  by (simp_all add: packet_duration_def Let_def)

lemma do_call_packet:
  "parse_extradata (call_split c) (call_malloc_ok c) s1 (call_avctx c) = (s1, None) \<Longrightarrow>
     do_call s1 c = fst (packet_duration s1 (call_buf c))"
  by (simp add: do_call_def vorbis_parse_def parse_end_def)

lemma do_call_parsed:
  assumes "parsed_flag s1"
  shows "parsed_flag (do_call s1 c)" and "valid_flag (do_call s1 c) = valid_flag s1"
    and "blocksize (priv_data (do_call s1 c)) = blocksize (priv_data s1)"
    and "mode_blocksize (priv_data (do_call s1 c)) = mode_blocksize (priv_data s1)"
    and "mode_count (priv_data (do_call s1 c)) = mode_count (priv_data s1)"
    and "mode_mask (priv_data (do_call s1 c)) = mode_mask (priv_data s1)"
proof -
  have "parse_extradata (call_split c) (call_malloc_ok c) s1 (call_avctx c) = (s1, None)"
    using assms by (simp add: parsed_flag_def parse_extradata_skipped)
  then have d: "do_call s1 c = fst (packet_duration s1 (call_buf c))"
    by (rule do_call_packet)
  show "parsed_flag (do_call s1 c)" "valid_flag (do_call s1 c) = valid_flag s1"
    "blocksize (priv_data (do_call s1 c)) = blocksize (priv_data s1)"
    "mode_blocksize (priv_data (do_call s1 c)) = mode_blocksize (priv_data s1)"
    "mode_count (priv_data (do_call s1 c)) = mode_count (priv_data s1)"
    "mode_mask (priv_data (do_call s1 c)) = mode_mask (priv_data s1)"
    using assms by (simp_all add: d parsed_flag_def valid_flag_def packet_duration_flags)
qed

lemma do_call_no_extradata:
  assumes "\<not> has_extradata c"
  shows "parsed_flag (do_call s1 c) = parsed_flag s1" and "valid_flag (do_call s1 c) = valid_flag s1"
proof -
  have "parse_extradata (call_split c) (call_malloc_ok c) s1 (call_avctx c) = (s1, None)"
    using assms by (auto simp: has_extradata_def parse_extradata_def)
  then have d: "do_call s1 c = fst (packet_duration s1 (call_buf c))"
    by (rule do_call_packet)
  show "parsed_flag (do_call s1 c) = parsed_flag s1" "valid_flag (do_call s1 c) = valid_flag s1"
    by (simp_all add: d parsed_flag_def valid_flag_def packet_duration_flags)
qed

lemma parse_extradata_sets_parsed:
  "extradata_parsed (priv_data s1) = 0 \<Longrightarrow> extradata avctx \<noteq> None \<Longrightarrow> extradata_size avctx \<noteq> 0
     \<Longrightarrow> extradata_parsed (priv_data (fst (parse_extradata split ok s1 avctx))) = 1"
  by (auto simp: parse_extradata_def Let_def parse_id_header_def parse_setup_header_def
      read_mode_blocksizes_fields split: option.split prod.split sum.split if_splits)

lemma do_call_cases:
  "parse_extradata (call_split c) (call_malloc_ok c) s1 (call_avctx c) = (s1m, None) \<Longrightarrow>
     do_call s1 c = fst (packet_duration s1m (call_buf c))"
  "parse_extradata (call_split c) (call_malloc_ok c) s1 (call_avctx c) = (s1m, Some e) \<Longrightarrow>
     do_call s1 c = s1m"
  by (simp_all add: do_call_def vorbis_parse_def parse_end_def)

lemma do_call_extradata:
  assumes "\<not> parsed_flag s1" and "has_extradata c"
  shows "parsed_flag (do_call s1 c)"
proof -
  obtain s1m r where p: "parse_extradata (call_split c) (call_malloc_ok c) s1 (call_avctx c) = (s1m, r)"
    by (cases "parse_extradata (call_split c) (call_malloc_ok c) s1 (call_avctx c)") auto
  have "extradata_parsed (priv_data (fst (parse_extradata (call_split c) (call_malloc_ok c) s1 (call_avctx c)))) = 1"
    using assms by (intro parse_extradata_sets_parsed) (auto simp: parsed_flag_def has_extradata_def)
  then have e: "extradata_parsed (priv_data s1m) = 1"
    by (simp add: p)
  show ?thesis
  proof (cases r)
    case None
    with p e show ?thesis
      by (simp add: do_call_cases(1) parsed_flag_def packet_duration_flags)
  next
    case (Some err)
    with p e show ?thesis
      by (simp add: do_call_cases(2) parsed_flag_def)
  qed
qed

lemma parse_trace_length: "length (parse_trace s1 cs) = Suc (length cs)"
  by (induction cs arbitrary: s1) simp_all

lemma parse_trace_hd: "parse_trace s1 cs = s1 # tl (parse_trace s1 cs)"
  by (cases cs) simp_all

lemma parse_trace_drop:
  "i \<le> length cs \<Longrightarrow> drop i (parse_trace s1 cs) = parse_trace (parse_trace s1 cs ! i) (drop i cs)"
proof (induction cs arbitrary: s1 i)
  case Nil
  then show ?case by simp
next
  case (Cons c cs)
  show ?case
  proof (cases i)
    case 0
    then show ?thesis by simp
  next
    case (Suc k)
    with Cons.prems have "k \<le> length cs" by simp
    from Cons.IH [OF this, of "do_call s1 c"] Suc show ?thesis by simp
  qed
qed

lemma trace_after_parsed:
  "parsed_flag s1 \<Longrightarrow> x \<in> set (parse_trace s1 cs) \<Longrightarrow>
     parsed_flag x \<and> valid_flag x = valid_flag s1 \<and>
     blocksize (priv_data x) = blocksize (priv_data s1) \<and>
     mode_blocksize (priv_data x) = mode_blocksize (priv_data s1) \<and>
     mode_count (priv_data x) = mode_count (priv_data s1) \<and>
     mode_mask (priv_data x) = mode_mask (priv_data s1)"
proof (induction cs arbitrary: s1)
  case Nil
  then show ?case by simp
next
  case (Cons c cs)
  show ?case
  proof (cases "x = s1")
    case True
    with Cons.prems show ?thesis by simp
  next
    case False
    with Cons.prems have "x \<in> set (parse_trace (do_call s1 c) cs)" by simp
    from Cons.IH [OF do_call_parsed(1) [OF Cons.prems(1)] this]
    show ?thesis by (simp add: do_call_parsed [OF Cons.prems(1)])
  qed
qed

lemma rises_Cons:
  "xs \<noteq> [] \<Longrightarrow> rises (a # xs) = (if \<not> a \<and> hd xs then 1 else 0) + rises xs"
  by (cases xs) simp_all

lemma rises_trace_step:
  "rises (map f (parse_trace s1 (c # cs))) =
     (if \<not> f s1 \<and> f (do_call s1 c) then 1 else 0) + rises (map f (parse_trace (do_call s1 c) cs))"
proof -
  have n: "map f (parse_trace (do_call s1 c) cs) \<noteq> []"
    and h: "hd (map f (parse_trace (do_call s1 c) cs)) = f (do_call s1 c)"
    by (cases cs; simp)+
  show ?thesis
    using rises_Cons [OF n, of "f s1"] by (simp add: h)
qed

lemma rises_parsed_after:
  "parsed_flag s1 \<Longrightarrow> rises (map parsed_flag (parse_trace s1 cs)) = 0 \<and>
     rises (map valid_flag (parse_trace s1 cs)) = 0"
proof (induction cs arbitrary: s1)
  case Nil
  then show ?case by simp
next
  case (Cons c cs)
  from Cons.IH [OF do_call_parsed(1) [OF Cons.prems]] show ?case
    by (simp only: rises_trace_step) (simp add: do_call_parsed [OF Cons.prems] Cons.prems)
qed

lemma rises_parsed:
  "\<not> parsed_flag s1 \<Longrightarrow>
     rises (map parsed_flag (parse_trace s1 cs)) = (if \<exists>c\<in>set cs. has_extradata c then 1 else 0)"
proof (induction cs arbitrary: s1)
  case Nil
  then show ?case by simp
next
  case (Cons c cs)
  note u = rises_trace_step [of parsed_flag s1 c cs]
  show ?case
  proof (cases "has_extradata c")
    case True
    then have p: "parsed_flag (do_call s1 c)"
      using Cons.prems by (simp add: do_call_extradata)
    with True Cons.prems show ?thesis
      by (subst u) (simp add: rises_parsed_after)
  next
    case False
    then have p: "\<not> parsed_flag (do_call s1 c)"
      using Cons.prems by (simp add: do_call_no_extradata)
    from Cons.IH [OF p] False p show ?thesis
      by (subst u) simp
  qed
qed

lemma rises_valid:
  "rises (map valid_flag (parse_trace s1 cs)) \<le> 1"
proof (induction cs arbitrary: s1)
  case Nil
  then show ?case by simp
next
  case (Cons c cs)
  note u = rises_trace_step [of valid_flag s1 c cs]
  show ?case
  proof (cases "parsed_flag s1 \<or> has_extradata c")
    case True
    then have "parsed_flag (do_call s1 c)"
      using do_call_parsed(1) do_call_extradata by blast
    then show ?thesis
      by (subst u) (simp add: rises_parsed_after)
  next
    case False
    then have "valid_flag (do_call s1 c) = valid_flag s1"
      by (simp add: do_call_no_extradata)
    with Cons.IH [of "do_call s1 c"] show ?thesis
      by (subst u) simp
  qed
qed

lemma do_call_valid_parsed:
  assumes "valid_flag s1 \<longrightarrow> parsed_flag s1"
  shows "valid_flag (do_call s1 c) \<longrightarrow> parsed_flag (do_call s1 c)"
proof (cases "parsed_flag s1 \<or> has_extradata c")
  case True
  then have "parsed_flag (do_call s1 c)"
    using do_call_parsed(1) do_call_extradata by blast
  then show ?thesis by simp
next
  case False
  with assms show ?thesis
    by (simp add: do_call_no_extradata)
qed

lemma trace_valid_parsed:
  "valid_flag s1 \<longrightarrow> parsed_flag s1 \<Longrightarrow> x \<in> set (parse_trace s1 cs)
     \<Longrightarrow> valid_flag x \<longrightarrow> parsed_flag x"
proof (induction cs arbitrary: s1)
  case Nil
  then show ?case by simp
next
  case (Cons c cs)
  show ?case
  proof (cases "x = s1")
    case True
    with Cons.prems show ?thesis by simp
  next
    case False
    with Cons.prems have "x \<in> set (parse_trace (do_call s1 c) cs)" by simp
    from Cons.IH [OF do_call_valid_parsed [OF Cons.prems(1)] this] show ?thesis .
  qed
qed

lemma new_parser_flags: "\<not> parsed_flag (new_parser d)" "\<not> valid_flag (new_parser d)"
  by (simp_all add: parsed_flag_def valid_flag_def new_parser_def new_context_def)

lemma parse_extradata_failed:
  assumes "parse_extradata split ok s1 avctx = (s1m, Some e)"
  shows "extradata_parsed (priv_data s1) = 0" and "extradata_parsed (priv_data s1m) = 1"
    and "valid_extradata (priv_data s1m) = valid_extradata (priv_data s1)"
  using assms
  by (auto simp: parse_extradata_def Let_def parse_id_header_def
      split: if_splits option.splits prod.splits sum.splits)

lemma parse_extradata_succeeded:
  assumes "parse_extradata split ok s1 avctx = (s1m, None)"
    and "extradata_parsed (priv_data s1) = 0" and "extradata avctx \<noteq> None"
    and "extradata_size avctx \<noteq> 0"
  shows "valid_extradata (priv_data s1m) = 1"
  using assms
  by (auto simp: parse_extradata_def Let_def split: if_splits option.splits prod.splits sum.splits)

lemma parse_trace_0: "parse_trace s1 cs ! 0 = s1"
  by (cases cs) simp_all

lemma parse_trace_Suc:
  "i < length cs \<Longrightarrow> parse_trace s1 cs ! Suc i = do_call (parse_trace s1 cs ! i) (cs ! i)"
proof (induction cs arbitrary: s1 i)
  case Nil
  then show ?case by simp
next
  case (Cons c cs)
  show ?case
  proof (cases i)
    case 0
    then show ?thesis by (simp add: parse_trace_0)
  next
    case (Suc k)
    with Cons.prems have "k < length cs" by simp
    from Cons.IH [OF this, of "do_call s1 c"] Suc show ?thesis by simp
  qed
qed

lemma do_call_failed_attempt:
  assumes "attempt_error s1 c \<noteq> None"
  shows "\<not> parsed_flag s1" and "parsed_flag (do_call s1 c)"
    and "valid_flag (do_call s1 c) = valid_flag s1"
proof -
  obtain s1m e where p: "parse_extradata (call_split c) (call_malloc_ok c) s1 (call_avctx c) = (s1m, Some e)"
    using assms
    by (cases "parse_extradata (call_split c) (call_malloc_ok c) s1 (call_avctx c)")
       (auto simp: attempt_error_def)
  note f = parse_extradata_failed [OF p]
  have d: "do_call s1 c = s1m"
    using p by (rule do_call_cases(2))
  show "\<not> parsed_flag s1" using f(1) by (simp add: parsed_flag_def)
  show "parsed_flag (do_call s1 c)" using f(2) by (simp add: d parsed_flag_def)
  show "valid_flag (do_call s1 c) = valid_flag s1" using f(3) by (simp add: d valid_flag_def)
qed

lemma do_call_good_attempt:
  assumes "attempt_error s1 c = None" and "\<not> parsed_flag s1" and "has_extradata c"
  shows "valid_flag (do_call s1 c)"
proof -
  obtain s1m where p: "parse_extradata (call_split c) (call_malloc_ok c) s1 (call_avctx c) = (s1m, None)"
    using assms(1)
    by (cases "parse_extradata (call_split c) (call_malloc_ok c) s1 (call_avctx c)")
       (auto simp: attempt_error_def)
  have "valid_extradata (priv_data s1m) = 1"
    using p assms(2,3) by (intro parse_extradata_succeeded) (auto simp: parsed_flag_def has_extradata_def)
  then show ?thesis
    by (simp add: do_call_cases(1) [OF p] valid_flag_def packet_duration_flags)
qed

text \<open>
  C6, amended: along every sequence of calls on a new parser state, \<open>extradata_parsed\<close>
  goes from false to true at most once, and exactly once when some call of the sequence
  comes with extradata (a non-null pointer and a non-zero size); \<open>valid_extradata\<close> goes
  from false to true at most once and is never set while \<open>extradata_parsed\<close> is not; once
  \<open>extradata_parsed\<close> is set it stays set, and \<open>valid_extradata\<close> and the header fields
  keep their values in all later calls. The call that makes the attempt sets
  \<open>valid_extradata\<close> exactly when the attempt succeeds, and after a call whose attempt
  fails \<open>extradata_parsed\<close> is set and \<open>valid_extradata\<close> is false in every later state.
\<close>

theorem extradata_parsed_at_most_once:
  assumes "tr = parse_trace (new_parser d) cs"
  shows "rises (map parsed_flag tr) = (if \<exists>c\<in>set cs. has_extradata c then 1 else 0) \<and>
         rises (map valid_flag tr) \<le> 1 \<and>
         (\<forall>i<length tr. valid_flag (tr ! i) \<longrightarrow> parsed_flag (tr ! i)) \<and>
         (\<forall>i j. i \<le> j \<and> j < length tr \<and> parsed_flag (tr ! i) \<longrightarrow>
            parsed_flag (tr ! j) \<and> valid_flag (tr ! j) = valid_flag (tr ! i) \<and>
            blocksize (priv_data (tr ! j)) = blocksize (priv_data (tr ! i)) \<and>
            mode_blocksize (priv_data (tr ! j)) = mode_blocksize (priv_data (tr ! i)) \<and>
            mode_count (priv_data (tr ! j)) = mode_count (priv_data (tr ! i)) \<and>
            mode_mask (priv_data (tr ! j)) = mode_mask (priv_data (tr ! i))) \<and>
         (\<forall>i j. i < j \<and> j < length tr \<and> attempt_error (tr ! i) (cs ! i) \<noteq> None \<longrightarrow>
            parsed_flag (tr ! j) \<and> \<not> valid_flag (tr ! j)) \<and>
         (\<forall>i<length cs. \<not> parsed_flag (tr ! i) \<and> has_extradata (cs ! i) \<longrightarrow>
            valid_flag (tr ! Suc i) = (attempt_error (tr ! i) (cs ! i) = None))"
proof -
  have len: "length tr = Suc (length cs)"
    by (simp add: assms parse_trace_length)
  have step: "\<And>i. i < length cs \<Longrightarrow> tr ! Suc i = do_call (tr ! i) (cs ! i)"
    unfolding assms by (rule parse_trace_Suc)
  have c1: "rises (map parsed_flag tr) = (if \<exists>c\<in>set cs. has_extradata c then 1 else 0)"
    unfolding assms by (rule rises_parsed) (rule new_parser_flags)
  have c2: "rises (map valid_flag tr) \<le> 1"
    unfolding assms by (rule rises_valid)
  have c3: "valid_flag (tr ! i) \<longrightarrow> parsed_flag (tr ! i)" if "i < length tr" for i
  proof -
    from that have "tr ! i \<in> set (parse_trace (new_parser d) cs)"
      by (simp add: assms)
    from trace_valid_parsed [OF _ this] show ?thesis
      by (simp add: new_parser_flags)
  qed
  have c4: "parsed_flag (tr ! j) \<and> valid_flag (tr ! j) = valid_flag (tr ! i) \<and>
            blocksize (priv_data (tr ! j)) = blocksize (priv_data (tr ! i)) \<and>
            mode_blocksize (priv_data (tr ! j)) = mode_blocksize (priv_data (tr ! i)) \<and>
            mode_count (priv_data (tr ! j)) = mode_count (priv_data (tr ! i)) \<and>
            mode_mask (priv_data (tr ! j)) = mode_mask (priv_data (tr ! i))"
    if a: "i \<le> j \<and> j < length tr \<and> parsed_flag (tr ! i)" for i j
  proof -
    from a have i: "i \<le> length cs" and j: "j - i < length (drop i tr)"
      by (auto simp: len)
    have "tr ! j = drop i tr ! (j - i)"
      using a by (simp add: len)
    also have "\<dots> \<in> set (drop i tr)"
      using j by (rule nth_mem)
    also have "drop i tr = parse_trace (tr ! i) (drop i cs)"
      unfolding assms using i by (rule parse_trace_drop)
    finally have m: "tr ! j \<in> set (parse_trace (tr ! i) (drop i cs))" .
    from a have p: "parsed_flag (tr ! i)" by simp
    from trace_after_parsed [OF p m] show ?thesis by simp
  qed
  have c5: "parsed_flag (tr ! j) \<and> \<not> valid_flag (tr ! j)"
    if a: "i < j \<and> j < length tr \<and> attempt_error (tr ! i) (cs ! i) \<noteq> None" for i j
  proof -
    from a have i: "i < length cs" and e: "attempt_error (tr ! i) (cs ! i) \<noteq> None"
      by (simp_all add: len)
    note f = do_call_failed_attempt [OF e]
    from c3 [of i] i f(1) have "\<not> valid_flag (tr ! i)"
      by (auto simp: len)
    with f have s: "parsed_flag (tr ! Suc i)" "\<not> valid_flag (tr ! Suc i)"
      by (simp_all add: step [OF i])
    from a s(1) have "Suc i \<le> j \<and> j < length tr \<and> parsed_flag (tr ! Suc i)"
      by simp
    from c4 [OF this] s(2) show ?thesis
      by simp
  qed
  have c6: "valid_flag (tr ! Suc i) = (attempt_error (tr ! i) (cs ! i) = None)"
    if a: "i < length cs" "\<not> parsed_flag (tr ! i) \<and> has_extradata (cs ! i)" for i
  proof (cases "attempt_error (tr ! i) (cs ! i) = None")
    case True
    with a do_call_good_attempt [OF True] show ?thesis
      by (simp add: step)
  next
    case False
    from a(1) have "i < Suc i \<and> Suc i < length tr \<and> attempt_error (tr ! i) (cs ! i) \<noteq> None"
      using False by (simp add: len)
    from c5 [OF this] False show ?thesis
      by simp
  qed
  from c1 c2 c3 c4 c5 c6 show ?thesis
    by blast
qed

text \<open>
  C6 as stated fails: in a sequence of calls that never come with extradata,
  \<open>extradata_parsed\<close> never becomes true.
\<close>

theorem extradata_parsed_exactly_once_counterexample:
  "rises (map parsed_flag (parse_trace (new_parser 0)
     [example_call setup_two_modes True no_extradata [2],
      example_call setup_two_modes True no_extradata [2]])) = 0"
  by code_simp

lemma parsed_late_facts:
  "valid_flag (parse_trace (new_parser 0) calls_parsed_late ! 2)"
  "\<not> parsed_flag (parse_trace (new_parser 0) calls_parsed_late ! 1)"
  by code_simp+

lemma attempt_facts:
  "attempt_error (parse_trace (new_parser 0) calls_failed_first ! 0) (calls_failed_first ! 0)
     = Some OutOfMemory"
  "attempt_error (parse_trace (new_parser 0) calls_parsed_late ! 1) (calls_parsed_late ! 1) = None"
  "has_extradata (calls_parsed_late ! 1)"
  by code_simp+

theorem extradata_parsed_at_most_once_witness:
  "rises (map parsed_flag (parse_trace (new_parser 0) calls_parsed_late)) = 1 \<and>
   \<not> parsed_flag (parse_trace (new_parser 0) calls_parsed_late ! 1) \<and>
   has_extradata (calls_parsed_late ! 1) \<and>
   attempt_error (parse_trace (new_parser 0) calls_parsed_late ! 1) (calls_parsed_late ! 1) = None \<and>
   valid_flag (parse_trace (new_parser 0) calls_parsed_late ! 2) \<and>
   parsed_flag (parse_trace (new_parser 0) calls_parsed_late ! 2) \<and>
   valid_flag (parse_trace (new_parser 0) calls_parsed_late ! 3) \<and>
   attempt_error (parse_trace (new_parser 0) calls_failed_first ! 0) (calls_failed_first ! 0)
     = Some OutOfMemory \<and>
   parsed_flag (parse_trace (new_parser 0) calls_failed_first ! 1) \<and>
   \<not> valid_flag (parse_trace (new_parser 0) calls_failed_first ! 1) \<and>
   parsed_flag (parse_trace (new_parser 0) calls_failed_first ! 2) \<and>
   \<not> valid_flag (parse_trace (new_parser 0) calls_failed_first ! 2)"
proof -
  let ?a = "parse_trace (new_parser 0) calls_parsed_late"
  let ?b = "parse_trace (new_parser 0) calls_failed_first"
  note A = extradata_parsed_at_most_once [OF refl, of 0 calls_parsed_late]
  note B = extradata_parsed_at_most_once [OF refl, of 0 calls_failed_first]
  have e: "\<exists>c\<in>set calls_parsed_late. has_extradata c"
    by (simp add: calls_parsed_late_def example_call_def has_extradata_def example_avctx_def)
  have la: "length ?a = 4" and lb: "length ?b = 3"
    and ca: "length calls_parsed_late = 3"
    by (simp_all add: parse_trace_length calls_parsed_late_def calls_failed_first_def)
  from A e have r: "rises (map parsed_flag ?a) = 1"
    by simp
  from A have "1 < length calls_parsed_late \<longrightarrow>
      \<not> parsed_flag (?a ! 1) \<and> has_extradata (calls_parsed_late ! 1) \<longrightarrow>
      valid_flag (?a ! Suc 1) = (attempt_error (?a ! 1) (calls_parsed_late ! 1) = None)"
    by blast
  with ca parsed_late_facts(2) attempt_facts(2,3) have v2: "valid_flag (?a ! 2)"
    by (simp add: numeral_2_eq_2)
  from A la v2 have p2: "parsed_flag (?a ! 2)"
    by simp
  from A have "2 \<le> (3::nat) \<and> 3 < length ?a \<and> parsed_flag (?a ! 2) \<longrightarrow>
      valid_flag (?a ! 3) = valid_flag (?a ! 2)"
    by blast
  with la p2 v2 have v3: "valid_flag (?a ! 3)"
    by simp
  have ne: "attempt_error (?b ! 0) (calls_failed_first ! 0) \<noteq> None"
    by (simp add: attempt_facts(1))
  from B have "\<And>j. 0 < j \<and> j < length ?b \<and> attempt_error (?b ! 0) (calls_failed_first ! 0) \<noteq> None
      \<longrightarrow> parsed_flag (?b ! j) \<and> \<not> valid_flag (?b ! j)"
    by blast
  from this [of 1] this [of 2] lb ne
  have f: "parsed_flag (?b ! 1)" "\<not> valid_flag (?b ! 1)" "parsed_flag (?b ! 2)" "\<not> valid_flag (?b ! 2)"
    by simp_all
  from r v2 p2 v3 f parsed_late_facts(2) attempt_facts show ?thesis
    by simp
qed

subsection \<open>The duration of a packet\<close>

lemma get_bits1_lt2: "fst (get_bits1 gb) < 2"
  by (simp add: get_bits1_bit)

lemma read_mode_blocksizes_above:
  "n \<le> i \<Longrightarrow> mode_blocksize (read_mode_blocksizes gb n s) ! i = mode_blocksize s ! i"
  by (induction n arbitrary: gb s) simp_all

lemma read_mode_blocksizes_entries:
  "n \<le> length (mode_blocksize s) \<Longrightarrow> length (blocksize s) = 2 \<Longrightarrow> i < n \<Longrightarrow>
     mode_blocksize (read_mode_blocksizes gb n s) ! i \<in> set (blocksize s)"
proof (induction n arbitrary: gb s)
  case 0
  then show ?case by simp
next
  case (Suc n)
  let ?b = "fst (get_bits1 (skip_bits_long gb 40))"
  let ?s = "s\<lparr>mode_blocksize := (mode_blocksize s)[n := blocksize s ! ?b]\<rparr>"
  let ?g = "snd (get_bits1 (skip_bits_long gb 40))"
  have r: "read_mode_blocksizes gb (Suc n) s = read_mode_blocksizes ?g n ?s"
    by simp
  have b: "blocksize s ! ?b \<in> set (blocksize s)"
    using Suc.prems(2) get_bits1_lt2 [of "skip_bits_long gb 40"] by simp
  show ?case
  proof (cases "i = n")
    case True
    have "mode_blocksize (read_mode_blocksizes ?g n ?s) ! n = mode_blocksize ?s ! n"
      by (rule read_mode_blocksizes_above) simp
    with Suc.prems(1) b True show ?thesis
      unfolding r by simp
  next
    case False
    with Suc.prems have "i < n" by simp
    with Suc.IH [of ?s ?g] Suc.prems show ?thesis
      unfolding r by simp
  qed
qed

lemma parse_setup_header_Inr:
  assumes "parse_setup_header ok s buf = Inr s'"
    and "length (mode_blocksize s) = 64" and "length (blocksize s) = 2"
  shows "blocksize s' = blocksize s" and "length (mode_blocksize s') = 64"
    and "extradata_parsed s' = extradata_parsed s" and "valid_extradata s' = valid_extradata s"
    and "1 \<le> unat (mode_count s')" and "unat (mode_count s') \<le> 64"
    and "\<forall>i<unat (mode_count s'). mode_blocksize s' ! i \<in> set (blocksize s)"
proof -
  let ?gb = "init_get_bits (reverse_bytes buf) (length buf * 8)"
  obtain c g l where sm: "scan_modes (snd (scan_framing_bit ?gb)) 0 False 0 = (c, g, l)"
    by (cases "scan_modes (snd (scan_framing_bit ?gb)) 0 False 0") auto
  define s0 where "s0 = s\<lparr>mode_count := of_nat l,
                  mode_mask := push_bit 1 (push_bit (av_log2 (l - 1) + 1) 1 - 1)\<rparr>"
  from assms(1) have g: "g"
    and s': "s' = read_mode_blocksizes (skip_bits_long ?gb (fst (scan_framing_bit ?gb))) l s0"
    by (auto simp: parse_setup_header_def Let_def sm s0_def split: if_splits)
  from scan_modes_last [OF sm] g have l: "1 \<le> l" "l \<le> 64"
    by auto
  have "mode_count s' = of_nat l"
    by (simp add: s' s0_def read_mode_blocksizes_fields)
  with l have mc: "unat (mode_count s') = l"
    by (simp add: unat_of_nat)
  show "blocksize s' = blocksize s" "length (mode_blocksize s') = 64"
    "extradata_parsed s' = extradata_parsed s" "valid_extradata s' = valid_extradata s"
    using assms(2) by (simp_all add: s' s0_def read_mode_blocksizes_fields)
  show "1 \<le> unat (mode_count s')" "unat (mode_count s') \<le> 64"
    using l by (simp_all add: mc)
  have "\<And>i. i < l \<Longrightarrow> mode_blocksize s' ! i \<in> set (blocksize s0)"
    unfolding s' using l assms(2,3)
    by (intro read_mode_blocksizes_entries) (simp_all add: s0_def)
  then show "\<forall>i<unat (mode_count s'). mode_blocksize s' ! i \<in> set (blocksize s)"
    by (simp add: mc s0_def)
qed

lemma exponents_lt_16:
  "unat ((b :: 8 word) AND 0xF) < 16" "unat (drop_bit 4 b) < 16"
proof -
  have "b AND 0xF \<le> 0xF" by (rule word_and_le1)
  then show "unat (b AND 0xF) < 16" by (simp add: word_le_nat_alt)
  have "unat b < 256" using unsigned_less [of b] by simp
  then show "unat (drop_bit 4 b) < 16" by (simp add: drop_bit_eq_div unat_div)
qed

lemma parse_id_header_Inr:
  assumes "parse_id_header s buf = Inr s'"
  shows "\<exists>e0<16. \<exists>e1<16. s' = s\<lparr>blocksize := [push_bit e0 1, push_bit e1 1]\<rparr>"
  using assms exponents_lt_16 [of "buf ! 28"]
  by (auto simp: parse_id_header_def split: if_splits)

lemma sint_of_nat_small:
  assumes "n < 2 ^ 31"
  shows "sint (of_nat n :: 32 word) = int n" and "unat (of_nat n :: 32 word) = n"
proof -
  have n32: "n < 2 ^ 32"
    using assms by (rule less_trans) simp
  then show u: "unat (of_nat n :: 32 word) = n"
    by (simp add: unat_of_nat)
  have k: "int n < 2 ^ 31"
    using assms of_nat_less_iff [of n "2 ^ 31", where ?'a = int] by simp
  have l: "- (2 ^ 31) \<le> int n"
    by (rule order_trans [of _ 0]) simp_all
  have "uint (of_nat n :: 32 word) = int n"
    using n32 by (simp add: unsigned_of_nat take_bit_nat_eq_self)
  then have "sint (of_nat n :: 32 word) = signed_take_bit 31 (int n)"
    by (simp add: sint_uint)
  also have "\<dots> = int n"
    using l k by (rule signed_take_bit_int_eq_self)
  finally show "sint (of_nat n :: 32 word) = int n" .
qed

lemma sint_small:
  assumes "unat (w :: 32 word) < 2 ^ 31"
  shows "sint w = int (unat w)"
  using sint_of_nat_small(1) [OF assms] by simp

lemma pow2_word: "(push_bit e 1 :: 32 word) = of_nat (2 ^ e)"
  by (simp add: push_bit_of_1)

lemma ucast_unat: "(ucast (b :: 8 word) :: 32 word) = of_nat (unat b)"
  by simp

lemma and_ucast_le: "unat ((ucast (b :: 8 word) :: 32 word) AND m) < 256"
proof -
  have "unat b < 2 ^ LENGTH(8)"
    by (rule unsigned_less)
  then have b: "unat b < 256"
    by simp
  have "(ucast b :: 32 word) AND m \<le> ucast b"
    by (rule word_and_le2)
  then have "unat ((ucast b :: 32 word) AND m) \<le> unat (of_nat (unat b) :: 32 word)"
    by (simp add: word_le_nat_alt)
  also have "\<dots> = unat b"
    using b by (intro sint_of_nat_small(2)) simp
  finally show ?thesis using b by simp
qed

lemma packet_mode_range:
  "sint (packet_mode s buf) = int (unat (packet_mode s buf))" "unat (packet_mode s buf) < 128"
proof -
  let ?x = "(ucast (buf ! 0) :: 32 word) AND mode_mask s"
  have x: "unat ?x < 256" by (rule and_ucast_le)
  then have sx: "sint ?x = int (unat ?x)"
    by (intro sint_small) simp
  have h: "unat ?x div 2 < 2 ^ 31"
    using x by simp
  have "sint (packet_mode s buf) = sint ?x div 2"
    by (simp add: packet_mode_def sint_signed_drop_bit_eq drop_bit_eq_div)
  also have "\<dots> = int (unat ?x div 2)"
    by (simp add: sx zdiv_int)
  also have "\<dots> = sint (of_nat (unat ?x div 2) :: 32 word)"
    by (simp only: sint_of_nat_small(1) [OF h])
  finally have "packet_mode s buf = of_nat (unat ?x div 2)"
    by (rule signed_word_eqI)
  then have u: "unat (packet_mode s buf) = unat ?x div 2"
    by (simp only: sint_of_nat_small(2) [OF h])
  with x show "unat (packet_mode s buf) < 128"
    by simp
  then show "sint (packet_mode s buf) = int (unat (packet_mode s buf))"
    by (intro sint_small) simp
qed

lemma sint_sum_pow2:
  assumes "e1 < 16" and "e2 < 16"
  shows "sint (signed_drop_bit 2 (push_bit e1 1 + push_bit e2 1 :: 32 word))
           = (sint (push_bit e1 1 :: 32 word) + sint (push_bit e2 1 :: 32 word)) div 4"
proof -
  have "(2::nat) ^ e1 \<le> 2 ^ 15"
    by (rule power_increasing) (use assms in simp_all)
  moreover have "(2::nat) ^ e2 \<le> 2 ^ 15"
    by (rule power_increasing) (use assms in simp_all)
  ultimately have p: "(2::nat) ^ e1 \<le> 32768" "(2::nat) ^ e2 \<le> 32768"
    by simp_all
  then have b: "(2::nat) ^ e1 < 2 ^ 31" "(2::nat) ^ e2 < 2 ^ 31" "(2::nat) ^ e1 + 2 ^ e2 < 2 ^ 31"
    by simp_all
  have "(push_bit e1 1 + push_bit e2 1 :: 32 word) = of_nat (2 ^ e1 + 2 ^ e2)"
    by (simp add: push_bit_of_1)
  then have "sint (push_bit e1 1 + push_bit e2 1 :: 32 word) = int (2 ^ e1 + 2 ^ e2)"
    by (simp only: sint_of_nat_small(1) [OF b(3)])
  moreover have "sint (push_bit e1 1 :: 32 word) = int (2 ^ e1)"
    by (simp only: pow2_word sint_of_nat_small(1) [OF b(1)])
  moreover have "sint (push_bit e2 1 :: 32 word) = int (2 ^ e2)"
    by (simp only: pow2_word sint_of_nat_small(1) [OF b(2)])
  ultimately show ?thesis
    by (simp add: sint_signed_drop_bit_eq drop_bit_eq_div)
qed

lemma new_context_inv: "ctx_inv new_context"
  by (simp add: ctx_inv_def new_context_def)

lemma parse_extradata_inv:
  assumes "ctx_inv (priv_data s1)"
  shows "ctx_inv (priv_data (fst (parse_extradata split ok s1 avctx)))"
proof (cases "extradata_parsed (priv_data s1) = 0 \<and> extradata avctx \<noteq> None \<and> extradata_size avctx \<noteq> 0")
  case False
  then have "parse_extradata split ok s1 avctx = (s1, None)"
    by (auto simp: parse_extradata_def)
  with assms show ?thesis by simp
next
  case True
  define sa where "sa = (priv_data s1)\<lparr>extradata_parsed := 1\<rparr>"
  from True assms have v: "valid_extradata (priv_data s1) = 0"
    and len: "length (mode_blocksize (priv_data s1)) = 64"
    by (auto simp: ctx_inv_def)
  then have sa: "ctx_inv sa" "valid_extradata sa = 0" "length (mode_blocksize sa) = 64"
    by (simp_all add: sa_def ctx_inv_def)
  show ?thesis
  proof (cases "split (the (extradata avctx)) (extradata_size avctx) 30")
    case None
    with True sa show ?thesis
      by (simp add: parse_extradata_def sa_def)
  next
    case (Some hs)
    obtain h0 h1 h2 where hs: "hs = (h0, h1, h2)"
      by (cases hs) auto
    show ?thesis
    proof (cases "parse_id_header sa h0")
      case (Inl e)
      with True Some hs sa show ?thesis
        by (simp add: parse_extradata_def sa_def)
    next
      case (Inr sb)
      from parse_id_header_Inr [OF Inr] obtain e0 e1 where e: "e0 < 16" "e1 < 16"
        and sb: "sb = sa\<lparr>blocksize := [push_bit e0 1, push_bit e1 1]\<rparr>"
        by blast
      have sbi: "ctx_inv sb" "length (mode_blocksize sb) = 64" "length (blocksize sb) = 2"
        using sa by (simp_all add: sb ctx_inv_def)
      show ?thesis
      proof (cases "parse_setup_header ok sb h2")
        case (Inl e)
        with True Some hs Inr sbi show ?thesis
          by (simp add: parse_extradata_def sa_def)
      next
        case sc: (Inr sc)
        note f = parse_setup_header_Inr [OF sc sbi(2,3)]
        have r: "priv_data (fst (parse_extradata split ok s1 avctx))
                   = sc\<lparr>valid_extradata := 1, previous_blocksize := mode_blocksize sc ! 0\<rparr>"
          using True Some hs Inr sc by (simp add: parse_extradata_def sa_def)
        have b: "blocksize sc = [push_bit e0 1, push_bit e1 1]"
          using f(1) by (simp add: sb)
        have p: "extradata_parsed sc = 1"
          using f(3) by (simp add: sb sa_def)
        have z: "mode_blocksize sc ! 0 \<in> set (blocksize sc)"
          using f(5,7) by (simp add: f(1))
        have en: "\<forall>i<unat (mode_count sc). mode_blocksize sc ! i \<in> set (blocksize sc)"
          using f(7) by (simp add: f(1))
        have pw: "\<forall>b\<in>set (blocksize sc). \<exists>e<16. b = push_bit e 1"
          using e by (auto simp: b)
        show ?thesis
          unfolding r using f(2,5,6) p z en pw by (simp add: ctx_inv_def b)
      qed
    qed
  qed
qed

lemma packet_duration_inv:
  assumes "ctx_inv (priv_data s1)"
  shows "ctx_inv (priv_data (fst (packet_duration s1 buf)))"
proof -
  let ?s = "priv_data s1"
  let ?m = "packet_mode ?s buf"
  show ?thesis
  proof (cases "valid_extradata ?s \<noteq> 0 \<and> sint ?m < sint (mode_count ?s)")
    case True
    with assms have mc: "unat (mode_count ?s) \<le> 64"
      and en: "\<forall>i<unat (mode_count ?s). mode_blocksize ?s ! i \<in> set (blocksize ?s)"
      by (simp_all add: ctx_inv_def)
    from mc have "sint (mode_count ?s) = int (unat (mode_count ?s))"
      by (intro sint_small) simp
    with True have "uint ?m < uint (mode_count ?s)"
      by (simp add: packet_mode_range(1))
    then have "?m < mode_count ?s"
      by (simp add: word_less_def)
    then have "unat ?m < unat (mode_count ?s)"
      by (simp add: word_less_nat_alt)
    with en have "mode_blocksize ?s ! unat ?m \<in> set (blocksize ?s)"
      by simp
    with assms show ?thesis
      by (auto simp: packet_duration_def Let_def ctx_inv_def)
  next
    case False
    then have "fst (packet_duration s1 buf) = s1"
      by (auto simp: packet_duration_def Let_def)
    with assms show ?thesis by simp
  qed
qed

lemma do_call_inv:
  assumes "ctx_inv (priv_data s1)"
  shows "ctx_inv (priv_data (do_call s1 c))"
proof -
  obtain s1m r where p: "parse_extradata (call_split c) (call_malloc_ok c) s1 (call_avctx c) = (s1m, r)"
    by (cases "parse_extradata (call_split c) (call_malloc_ok c) s1 (call_avctx c)") auto
  from parse_extradata_inv [OF assms, of "call_split c" "call_malloc_ok c" "call_avctx c"]
  have i: "ctx_inv (priv_data s1m)"
    by (simp add: p)
  show ?thesis
  proof (cases r)
    case None
    with p i show ?thesis
      by (simp add: do_call_cases(1) packet_duration_inv)
  next
    case (Some e)
    with p i show ?thesis
      by (simp add: do_call_cases(2))
  qed
qed

lemma parse_calls_inv:
  "ctx_inv (priv_data s1) \<Longrightarrow> ctx_inv (priv_data (parse_calls s1 cs))"
  unfolding parse_calls_def
  by (induction cs arbitrary: s1) (simp_all add: do_call_inv)

lemma packet_duration_ok:
  assumes "valid_extradata (priv_data s1) \<noteq> 0" and "buf \<noteq> []" and "\<not> bit (buf ! 0) 0"
    and "sint (packet_mode (priv_data s1) buf) < sint (mode_count (priv_data s1))"
  shows "packet_duration s1 buf =
           (s1\<lparr>duration := signed_drop_bit 2 (previous_blocksize (priv_data s1)
                   + mode_blocksize (priv_data s1) ! unat (packet_mode (priv_data s1) buf)),
               priv_data := (priv_data s1)\<lparr>previous_blocksize :=
                   mode_blocksize (priv_data s1) ! unat (packet_mode (priv_data s1) buf)\<rparr>\<rparr>,
            None)"
proof -
  have "\<not> ((ucast (buf ! 0) :: 32 word) AND 1 \<noteq> 0)"
    unfolding ucast_and_1_bit0 using assms(3) .
  with assms(1,2,4) show ?thesis
    by (simp add: packet_duration_def Let_def)
qed

text \<open>
  C2: in every call on a state that a new parser has reached, when the duration calculation
  is entered with \<open>valid_extradata\<close> set and a non-empty packet whose first byte has
  bit 0 clear and whose mode index is below \<open>mode_count\<close>, the mode index is within the
  table, the duration is \<open>(previous_blocksize + mode_blocksize[mode]) >> 2\<close>, the sum does
  not overflow (as integers, the duration is the sum of the two block sizes divided by 4,
  rounded down), and afterwards \<open>previous_blocksize\<close> is \<open>mode_blocksize[mode]\<close>. In
  particular, in the state with the block sizes 64 and 512, two modes with these block
  sizes and the previous block size 64, the first byte 2 selects mode 1, the duration is
  144 and the previous block size becomes 512.
\<close>

theorem packet_duration_exact:
  "(parse_extradata split ok (parse_calls (new_parser d0) cs) avctx = (s1m, None) \<and>
    valid_extradata (priv_data s1m) \<noteq> 0 \<and> buf \<noteq> [] \<and> \<not> bit (buf ! 0) 0 \<and>
    sint (packet_mode (priv_data s1m) buf) < sint (mode_count (priv_data s1m)) \<longrightarrow>
      unat (packet_mode (priv_data s1m) buf) < unat (mode_count (priv_data s1m)) \<and>
      unat (mode_count (priv_data s1m)) \<le> 64 \<and>
      duration (ctx (vorbis_parse split ok (parse_calls (new_parser d0) cs) avctx buf))
        = signed_drop_bit 2 (previous_blocksize (priv_data s1m)
            + mode_blocksize (priv_data s1m) ! unat (packet_mode (priv_data s1m) buf)) \<and>
      sint (duration (ctx (vorbis_parse split ok (parse_calls (new_parser d0) cs) avctx buf)))
        = (sint (previous_blocksize (priv_data s1m))
            + sint (mode_blocksize (priv_data s1m) ! unat (packet_mode (priv_data s1m) buf))) div 4 \<and>
      previous_blocksize
          (priv_data (ctx (vorbis_parse split ok (parse_calls (new_parser d0) cs) avctx buf)))
        = mode_blocksize (priv_data s1m) ! unat (packet_mode (priv_data s1m) buf)) \<and>
   packet_mode example_context [2] = 1 \<and>
   duration (ctx (vorbis_parse split' ok' \<lparr>priv_data = example_context, duration = d'\<rparr>
                    avctx' [2])) = 144 \<and>
   previous_blocksize (priv_data (ctx (vorbis_parse split' ok'
       \<lparr>priv_data = example_context, duration = d'\<rparr> avctx' [2]))) = 512"
proof (intro conjI impI)
  assume a: "parse_extradata split ok (parse_calls (new_parser d0) cs) avctx = (s1m, None) \<and>
    valid_extradata (priv_data s1m) \<noteq> 0 \<and> buf \<noteq> [] \<and> \<not> bit (buf ! 0) 0 \<and>
    sint (packet_mode (priv_data s1m) buf) < sint (mode_count (priv_data s1m))"
  let ?s1 = "parse_calls (new_parser d0) cs"
  let ?s = "priv_data s1m"
  let ?m = "packet_mode ?s buf"
  let ?cur = "mode_blocksize ?s ! unat ?m"
  let ?R = "vorbis_parse split ok ?s1 avctx buf"
  have "ctx_inv (priv_data ?s1)"
    by (rule parse_calls_inv) (simp add: new_parser_def new_context_inv)
  from parse_extradata_inv [OF this, of split ok avctx] a have inv: "ctx_inv ?s"
    by simp
  with a have mc: "unat (mode_count ?s) \<le> 64"
    and en: "\<forall>i<unat (mode_count ?s). mode_blocksize ?s ! i \<in> set (blocksize ?s)"
    and pw: "\<forall>b\<in>set (blocksize ?s). \<exists>e<16. b = push_bit e 1"
    and pr: "previous_blocksize ?s \<in> set (blocksize ?s)"
    by (simp_all add: ctx_inv_def)
  from mc have "sint (mode_count ?s) = int (unat (mode_count ?s))"
    by (intro sint_small) simp
  with a have "uint ?m < uint (mode_count ?s)"
    by (simp add: packet_mode_range(1))
  then have "?m < mode_count ?s"
    by (simp add: word_less_def)
  then show m: "unat ?m < unat (mode_count ?s)"
    by (simp add: word_less_nat_alt)
  show "unat (mode_count ?s) \<le> 64" by (rule mc)
  have R: "?R = parse_end buf (packet_duration s1m buf)"
    using a by (simp add: vorbis_parse_def)
  from a have pd: "packet_duration s1m buf =
      (s1m\<lparr>duration := signed_drop_bit 2 (previous_blocksize ?s + ?cur),
           priv_data := ?s\<lparr>previous_blocksize := ?cur\<rparr>\<rparr>, None)"
    by (intro packet_duration_ok) simp_all
  show d: "duration (ctx ?R) = signed_drop_bit 2 (previous_blocksize ?s + ?cur)"
    by (simp add: R pd parse_end_def)
  show "previous_blocksize (priv_data (ctx ?R)) = ?cur"
    by (simp add: R pd parse_end_def)
  from en m have "?cur \<in> set (blocksize ?s)" by simp
  with pw obtain e2 where e2: "e2 < 16" "?cur = push_bit e2 1" by blast
  from pw pr obtain e1 where e1: "e1 < 16" "previous_blocksize ?s = push_bit e1 1" by blast
  show "sint (duration (ctx ?R)) = (sint (previous_blocksize ?s) + sint ?cur) div 4"
    unfolding d e1(2) e2(2) using e1(1) e2(1) by (rule sint_sum_pow2)
next
  show "packet_mode example_context [2] = 1"
    by (simp add: packet_mode_def example_context_def)
  then have "packet_duration \<lparr>priv_data = example_context, duration = d'\<rparr> [2]
      = (\<lparr>priv_data = example_context\<lparr>previous_blocksize := 512\<rparr>, duration = 144\<rparr>, None)"
    by (simp add: packet_duration_def Let_def) (simp add: example_context_def)
  moreover have "parse_extradata split' ok' \<lparr>priv_data = example_context, duration = d'\<rparr> avctx'
      = (\<lparr>priv_data = example_context, duration = d'\<rparr>, None)"
    by (simp add: parse_extradata_def example_context_def)
  ultimately show "duration (ctx (vorbis_parse split' ok' \<lparr>priv_data = example_context, duration = d'\<rparr>
                    avctx' [2])) = 144"
    and "previous_blocksize (priv_data (ctx (vorbis_parse split' ok'
       \<lparr>priv_data = example_context, duration = d'\<rparr> avctx' [2]))) = 512"
    by (simp_all add: vorbis_parse_def parse_end_def)
qed

lemma parsed_example_fields:
  "extradata_parsed (priv_data parsed_example) = 1"
  "valid_extradata (priv_data parsed_example) = 1"
  "blocksize (priv_data parsed_example) = [64, 512]"
  "mode_count (priv_data parsed_example) = 2"
  "mode_mask (priv_data parsed_example) = 2"
  "take 2 (mode_blocksize (priv_data parsed_example)) = [64, 512]"
  "previous_blocksize (priv_data parsed_example) = 64"
  "mode_blocksize (priv_data parsed_example) ! 1 = 512"
  by code_simp+

theorem packet_duration_exact_witness:
  "parse_extradata (example_split setup_two_modes) True parsed_example no_extradata
     = (parsed_example, None) \<and>
   valid_extradata (priv_data parsed_example) \<noteq> 0 \<and> [2 :: 8 word] \<noteq> [] \<and>
   \<not> bit ([2 :: 8 word] ! 0) 0 \<and>
   blocksize (priv_data parsed_example) = [64, 512] \<and>
   mode_count (priv_data parsed_example) = 2 \<and>
   take 2 (mode_blocksize (priv_data parsed_example)) = [64, 512] \<and>
   previous_blocksize (priv_data parsed_example) = 64 \<and>
   packet_mode (priv_data parsed_example) [2] = 1 \<and>
   sint (duration (ctx (vorbis_parse (example_split setup_two_modes) True parsed_example
      no_extradata [2]))) = 144 \<and>
   previous_blocksize (priv_data (ctx (vorbis_parse (example_split setup_two_modes) True
      parsed_example no_extradata [2]))) = 512"
proof -
  note f = parsed_example_fields
  have a: "parse_extradata (example_split setup_two_modes) True parsed_example no_extradata
     = (parsed_example, None)"
    by (rule parse_extradata_skipped) (simp add: f)
  have v: "valid_extradata (priv_data parsed_example) \<noteq> 0"
    by (simp add: f)
  have b: "\<not> bit ([2 :: 8 word] ! 0) 0" by simp
  have m: "packet_mode (priv_data parsed_example) [2] = 1"
    by (simp add: packet_mode_def f)
  have lt: "sint (packet_mode (priv_data parsed_example) [2]) < sint (mode_count (priv_data parsed_example))"
    by (simp add: m f)
  have c: "mode_blocksize (priv_data parsed_example) ! Suc 0 = 512"
    using f(8) by simp
  from packet_duration_exact [where cs = "[example_call setup_two_modes True example_avctx []]"
      and ?d0.0 = 0 and split = "example_split setup_two_modes" and ok = True
      and avctx = no_extradata and ?s1m.0 = parsed_example and buf = "[2]",
      folded parsed_example_def]
    a v b lt
  have "sint (duration (ctx (vorbis_parse (example_split setup_two_modes) True parsed_example
      no_extradata [2]))) = (64 + 512) div 4"
    and "previous_blocksize (priv_data (ctx (vorbis_parse (example_split setup_two_modes) True
      parsed_example no_extradata [2]))) = 512"
    by (simp_all add: m f c)
  with a v b m f show ?thesis
    by simp
qed

end
